theory Spec2Isabelle
  imports Main "HOL-Library.Word" "HOL-Library.List_Lexorder"
begin

unbundle bit_operations_syntax

section \<open>Bytes, strings and ordered maps\<close>

text \<open>
  The combiner of \<^verbatim>\<open>log4j2_plugin_dat_combiner.cc\<close> works on raw bytes. A
  \<^verbatim>\<open>uint8_t\<close> and a \<^verbatim>\<open>char\<close> are both an 8-bit word here, and a
  \<^verbatim>\<open>std::string\<close> is the list of its bytes. \<^verbatim>\<open>std::string\<close> compares
  lexicographically by unsigned byte value, which is the order of lists of words.
\<close>

type_synonym byte = "8 word"
type_synonym bytes = "byte list"

text \<open>String literals of the source, as their ASCII bytes.\<close>

definition ascii :: "string \<Rightarrow> bytes" where
  "ascii s = map (\<lambda>c. of_nat (of_char c)) s"

text \<open>
  A \<^verbatim>\<open>std::map<K, V>\<close> is modelled by the sequence its iteration yields: the list
  of its (key, value) pairs in strictly ascending key order. Two maps are equal as values
  exactly when these lists are equal.
\<close>

definition is_map :: "('k::linorder \<times> 'v) list \<Rightarrow> bool" where
  "is_map m = sorted_wrt (<) (map fst m)"

text \<open>\<^verbatim>\<open>m.find(k)\<close>: the value stored under \<open>k\<close>, if any.\<close>

definition std_map_find :: "('k \<times> 'v) list \<Rightarrow> 'k \<Rightarrow> 'v option" where
  "std_map_find m k = map_of m k"

text \<open>\<^verbatim>\<open>m.insert({k, v})\<close>: stores the pair unless the key is present already; an
  existing element is left as it is.\<close>

fun std_map_insert :: "('k::linorder \<times> 'v) \<Rightarrow> ('k \<times> 'v) list \<Rightarrow> ('k \<times> 'v) list" where
  "std_map_insert p [] = [p]"
| "std_map_insert p (q # m) =
     (if fst p < fst q then p # q # m
      else if fst p = fst q then q # m
      else q # std_map_insert p m)"

text \<open>\<^verbatim>\<open>m[k] = v\<close>: stores the value under the key, replacing what was there.\<close>

fun std_map_assign :: "'k::linorder \<Rightarrow> 'v \<Rightarrow> ('k \<times> 'v) list \<Rightarrow> ('k \<times> 'v) list" where
  "std_map_assign k v [] = [(k, v)]"
| "std_map_assign k v (q # m) =
     (if k < fst q then (k, v) # q # m
      else if k = fst q then (k, v) # m
      else q # std_map_assign k v m)"

text \<open>\<^verbatim>\<open>m[k]\<close> read: the value under the key, a default-constructed (empty) inner
  map when the key is absent. The write-back of the default is part of
  \<open>subscript_insert\<close> below.\<close>

definition std_map_subscript :: "('k \<times> ('j \<times> 'v) list) list \<Rightarrow> 'k \<Rightarrow> ('j \<times> 'v) list" where
  "std_map_subscript m k = (case std_map_find m k of None \<Rightarrow> [] | Some inner \<Rightarrow> inner)"

text \<open>\<^verbatim>\<open>m[k].insert(p)\<close>, the statement both insertion sites of the source use.\<close>

definition subscript_insert ::
  "'k::linorder \<Rightarrow> ('j::linorder \<times> 'v) \<Rightarrow> ('k \<times> ('j \<times> 'v) list) list \<Rightarrow> ('k \<times> ('j \<times> 'v) list) list" where
  "subscript_insert k p m = std_map_assign k (std_map_insert p (std_map_subscript m k)) m"

section \<open>The data model\<close>

text \<open>
  Modelled from the spec: the \<^verbatim>\<open>PluginEntry\<close> struct is declared in
  \<^verbatim>\<open>log4j2_plugin_dat_combiner.h\<close>, which is not among the sources. Its fields are
  those the constructor call in \<^verbatim>\<open>loadLog4j2PluginCacheFile\<close> passes, in that order,
  and \<^verbatim>\<open>writeLog4j2PluginCacheFile\<close> reads.
\<close>

record PluginEntry =
  key :: bytes
  className :: bytes
  name :: bytes
  printable :: bool
  defer' :: bool
  category :: bytes

type_synonym plugins = "(bytes \<times> PluginEntry) list"
type_synonym catalog = "(bytes \<times> plugins) list"

section \<open>Byte order\<close>

text \<open>
  \<^verbatim>\<open>swapByteOrder\<close> reverses the bytes of a value of \<open>totalBytes\<close> bytes. For the
  \<^verbatim>\<open>int\<close> instance the right shift is arithmetic, but the mask \<^verbatim>\<open>& 0xFF\<close> keeps
  only bits the logical shift yields as well; for \<^verbatim>\<open>uint16_t\<close> the computation is
  done in \<^verbatim>\<open>int\<close> and truncated by the assignment, which is the arithmetic of a
  16-bit word.
\<close>

definition swapByteOrder :: "'a::len word \<Rightarrow> 'a word" where
  "swapByteOrder val =
     (let totalBytes = LENGTH('a) div 8
      in fold (\<lambda>i swapped. swapped OR push_bit (8 * i) (drop_bit (8 * (totalBytes - i - 1)) val AND 0xFF))
           [0..<totalBytes] 0)"

text \<open>
  The object representation of a value on the little-endian hosts the tool is built for:
  \<^verbatim>\<open>reinterpret_cast<const uint8_t*>(&value)\<close> sees the low byte first, and a value
  read into through \<^verbatim>\<open>reinterpret_cast<char *>(&value)\<close> is assembled the same way.
\<close>

definition object_bytes :: "'a::len word \<Rightarrow> bytes" where
  "object_bytes v = map (\<lambda>j. ucast (drop_bit (8 * j) v)) [0..<LENGTH('a) div 8]"

definition object_value :: "bytes \<Rightarrow> 'a::len word" where
  "object_value bs = foldr (\<lambda>b v. ucast b OR push_bit 8 v) bs 0"

section \<open>Writing\<close>

definition writeBoolean :: "bytes \<Rightarrow> bool \<Rightarrow> bytes" where
  "writeBoolean buffer v = buffer @ [if v then 1 else 0]"

definition writeInt :: "bytes \<Rightarrow> 32 word \<Rightarrow> bytes" where
  "writeInt buffer v = buffer @ object_bytes (swapByteOrder v)"

text \<open>\<^verbatim>\<open>static_cast<uint16_t>(str.size())\<close> keeps the low 16 bits of the size.\<close>

definition writeUTFString :: "bytes \<Rightarrow> bytes \<Rightarrow> bytes" where
  "writeUTFString buffer str =
     (let length = swapByteOrder (of_nat (length str) :: 16 word)
      in (buffer @ object_bytes length) @ str)"

fun writePlugins :: "bytes \<Rightarrow> plugins \<Rightarrow> bytes" where
  "writePlugins buffer [] = buffer"
| "writePlugins buffer (pluginPair # rest) =
     (let plugin = snd pluginPair;
          b1 = writeUTFString buffer (key plugin);
          b2 = writeUTFString b1 (className plugin);
          b3 = writeUTFString b2 (name plugin);
          b4 = writeBoolean b3 (printable plugin);
          b5 = writeBoolean b4 (defer' plugin)
      in writePlugins b5 rest)"

fun writeCategories :: "bytes \<Rightarrow> catalog \<Rightarrow> bytes" where
  "writeCategories buffer [] = buffer"
| "writeCategories buffer (categoryPair # rest) =
     (let b1 = writeUTFString buffer (fst categoryPair);
          b2 = writeInt b1 (of_nat (length (snd categoryPair)));
          b3 = writePlugins b2 (snd categoryPair)
      in writeCategories b3 rest)"

text \<open>\<^verbatim>\<open>static_cast<int>(categories.size())\<close> keeps the low 32 bits of the size.\<close>

definition writeLog4j2PluginCacheFile :: "catalog \<Rightarrow> bytes" where
  "writeLog4j2PluginCacheFile categories =
     (let buffer = writeInt [] (of_nat (length categories))
      in writeCategories buffer categories)"

section \<open>Reading\<close>

text \<open>
  The \<^verbatim>\<open>std::istringstream\<close> over the entry's bytes: the characters not yet
  extracted, and whether the stream has left its good state (\<^verbatim>\<open>eofbit | failbit\<close>).
  The source reads into locals it does not initialise; \<open>indeterminate\<close> supplies the
  bytes such a local holds before the read, consumed in the order the locals come to
  life. No theorem below fixes these bytes.
\<close>

record istringstream =
  content :: bytes
  failed :: bool
  indeterminate :: "nat \<Rightarrow> byte"

text \<open>An uninitialised local of \<open>n\<close> bytes.\<close>

definition uninitialised :: "nat \<Rightarrow> istringstream \<Rightarrow> bytes \<times> istringstream" where
  "uninitialised n s =
     (map (indeterminate s) [0..<n], s\<lparr>indeterminate := (\<lambda>i. indeterminate s (i + n))\<rparr>)"

text \<open>
  \<^verbatim>\<open>stream.read(dst, n)\<close> with \<open>dst\<close> the \<open>n\<close> bytes the destination holds: a
  stream that is not good stores nothing; a good one stores the \<open>n\<close> next characters,
  or, when fewer remain, stores those, leaves the rest of the destination as it was
  and sets \<^verbatim>\<open>eofbit | failbit\<close>. It never reads past the end of the buffer.
\<close>

definition stream_read :: "nat \<Rightarrow> bytes \<Rightarrow> istringstream \<Rightarrow> bytes \<times> istringstream" where
  "stream_read n dst s =
     (if failed s then (dst, s)
      else if n \<le> length (content s)
        then (take n (content s), s\<lparr>content := drop n (content s)\<rparr>)
        else (content s @ drop (length (content s)) dst, s\<lparr>content := [], failed := True\<rparr>))"

text \<open>A byte read into a \<^verbatim>\<open>bool\<close>: zero is false, anything else true.\<close>

definition readBool :: "istringstream \<Rightarrow> bool \<times> istringstream" where
  "readBool stream =
     (let (v0, s0) = uninitialised 1 stream;
          (v, s1) = stream_read 1 v0 s0
      in (v \<noteq> [0], s1))"

definition readInt :: "istringstream \<Rightarrow> 32 word \<times> istringstream" where
  "readInt stream =
     (let (v0, s0) = uninitialised 4 stream;
          (values, s1) = stream_read 4 v0 s0
      in (swapByteOrder (object_value values), s1))"

definition readUTFString :: "istringstream \<Rightarrow> bytes \<times> istringstream" where
  "readUTFString stream =
     (let (l0, s0) = uninitialised 2 stream;
          (l1, s1) = stream_read 2 l0 s0;
          length = unat (swapByteOrder (object_value l1 :: 16 word));
          (result, s2) = stream_read length (replicate length 0) s1
      in (result, s2))"

text \<open>
  The two loops of \<^verbatim>\<open>loadLog4j2PluginCacheFile\<close>. A loop
  \<^verbatim>\<open>for (uint32_t j = 0; j < entries; ++j)\<close> runs its body \<open>unat entries\<close> times;
  the functions recurse on the number of rounds left.
\<close>

fun loadEntries :: "nat \<Rightarrow> bytes \<Rightarrow> catalog \<Rightarrow> istringstream \<Rightarrow> catalog \<times> istringstream" where
  "loadEntries 0 cat categories buffer = (categories, buffer)"
| "loadEntries (Suc n) cat categories buffer =
     (let (k, s1) = readUTFString buffer;
          (cls, s2) = readUTFString s1;
          (nm, s3) = readUTFString s2;
          (pr, s4) = readBool s3;
          (df, s5) = readBool s4;
          entry = \<lparr>key = k, className = cls, name = nm, printable = pr, defer' = df,
                   category = cat\<rparr>
      in loadEntries n cat (subscript_insert cat (k, entry) categories) s5)"

fun loadCategories :: "nat \<Rightarrow> catalog \<Rightarrow> istringstream \<Rightarrow> catalog \<times> istringstream" where
  "loadCategories 0 categories buffer = (categories, buffer)"
| "loadCategories (Suc n) categories buffer =
     (let (cat, s1) = readUTFString buffer;
          (entries, s2) = readInt s1;
          (categories1, s3) = loadEntries (unat entries) cat categories s2
      in loadCategories n categories1 s3)"

text \<open>
  The function takes the bytes the \<^verbatim>\<open>TransientBytes\<close> copies out. \<open>load_run\<close>
  also returns the stream as the function leaves it, which tells whether a read met the
  end of the buffer.
\<close>

definition load_run :: "(nat \<Rightarrow> byte) \<Rightarrow> bytes \<Rightarrow> catalog \<times> istringstream" where
  "load_run u byteData =
     (let buffer = \<lparr>content = byteData, failed = False, indeterminate = u\<rparr>;
          (categoriesCount, s1) = readInt buffer
      in loadCategories (unat categoriesCount) [] s1)"

definition loadLog4j2PluginCacheFile :: "(nat \<Rightarrow> byte) \<Rightarrow> bytes \<Rightarrow> catalog" where
  "loadLog4j2PluginCacheFile u byteData = fst (load_run u byteData)"


section \<open>The combiner\<close>

text \<open>
  Modelled from the spec: \<^verbatim>\<open>diag_errx\<close> is declared in \<^verbatim>\<open>diag.h\<close>, which is
  not among the sources. It prints its message and ends the process, which the
  specification describes as the fatal errors of the run: the call with the plugin's
  category and key is \<open>DuplicatePluginError\<close>, the call for a compression method that is
  neither stored nor deflated is \<open>UnsupportedCompressionMethod\<close>. A result \<open>Inl\<close> is
  the end of the process, with no catalog left. No statement of the source raises a
  \<open>FormatError\<close>.
\<close>

datatype error =
    FormatError string
  | UnsupportedCompressionMethod
  | DuplicatePluginError bytes bytes

text \<open>The inner loop of \<^verbatim>\<open>Merge\<close>, over the plugins of a category the accumulator
  has already.\<close>

fun mergePlugins :: "bool \<Rightarrow> bytes \<Rightarrow> plugins \<Rightarrow> catalog \<Rightarrow> error + catalog" where
  "mergePlugins no_duplicates newCategoryId [] categories = Inr categories"
| "mergePlugins no_duplicates newCategoryId (pluginPair # rest) categories =
     (let newPluginKey = fst pluginPair;
          existingPluginKey = std_map_find (std_map_subscript categories newCategoryId) newPluginKey
      in if existingPluginKey \<noteq> None \<and> no_duplicates
         then Inl (DuplicatePluginError newCategoryId newPluginKey)
         else mergePlugins no_duplicates newCategoryId rest
                (subscript_insert newCategoryId pluginPair categories))"

text \<open>The outer loop of \<^verbatim>\<open>Merge\<close>, over the categories just loaded.\<close>

fun mergeCategories :: "bool \<Rightarrow> catalog \<Rightarrow> catalog \<Rightarrow> error + catalog" where
  "mergeCategories no_duplicates [] categories = Inr categories"
| "mergeCategories no_duplicates (newCategoryPair # rest) categories =
     (let newCategoryId = fst newCategoryPair;
          newPlugins = snd newCategoryPair
      in case std_map_find categories newCategoryId of
           Some existing \<Rightarrow>
             (case mergePlugins no_duplicates newCategoryId newPlugins categories of
                Inl e \<Rightarrow> Inl e
              | Inr categories1 \<Rightarrow> mergeCategories no_duplicates rest categories1)
         | None \<Rightarrow>
             mergeCategories no_duplicates rest
               (std_map_assign newCategoryId newPlugins categories))"

text \<open>
  Modelled from the spec: the class \<^verbatim>\<open>Log4J2PluginDatCombiner\<close> is declared in
  \<^verbatim>\<open>log4j2_plugin_dat_combiner.h\<close>, which is not among the sources. Its members are
  those \<^verbatim>\<open>Merge\<close> uses: the accumulated catalog, the flag given at construction, and
  the inflater, of which the model records whether it has been created. The compression
  methods are the constants of zlib.
\<close>

record Log4J2PluginDatCombiner =
  categories' :: catalog
  no_duplicates' :: bool
  inflater' :: bool

definition Z_NO_COMPRESSION :: nat where
  "Z_NO_COMPRESSION = 0"

definition Z_DEFLATED :: nat where
  "Z_DEFLATED = 8"

text \<open>
  \<^verbatim>\<open>Merge\<close> of one archive entry, given by its compression method and its stored
  bytes. Reading the entry and inflating it are done by collaborators outside the
  sources; \<open>inflate\<close> stands for the decompression.
\<close>

definition Merge ::
  "(bytes \<Rightarrow> bytes) \<Rightarrow> Log4J2PluginDatCombiner \<Rightarrow> (nat \<Rightarrow> byte) \<times> nat \<times> bytes
     \<Rightarrow> error + Log4J2PluginDatCombiner" where
  "Merge inflate this entry =
     (case entry of (u, compression_method, stored) \<Rightarrow>
        (case (if compression_method = Z_NO_COMPRESSION then Inr (stored, this)
               else if compression_method = Z_DEFLATED
                 then Inr (inflate stored, this\<lparr>inflater' := True\<rparr>)
               else Inl UnsupportedCompressionMethod) of
           Inl e \<Rightarrow> Inl e
         | Inr (bytes', this1) \<Rightarrow>
             (let newCategories = loadLog4j2PluginCacheFile u bytes'
              in case mergeCategories (no_duplicates' this1) newCategories (categories' this1) of
                   Inl e \<Rightarrow> Inl e
                 | Inr categories1 \<Rightarrow> Inr (this1\<lparr>categories' := categories1\<rparr>))))"

text \<open>A run of the pipeline: the entries are merged in turn, and the first failure ends
  the run.\<close>

fun MergeAll ::
  "(bytes \<Rightarrow> bytes) \<Rightarrow> Log4J2PluginDatCombiner \<Rightarrow> ((nat \<Rightarrow> byte) \<times> nat \<times> bytes) list
     \<Rightarrow> error + Log4J2PluginDatCombiner" where
  "MergeAll inflate this [] = Inr this"
| "MergeAll inflate this (entry # rest) =
     (case Merge inflate this entry of
        Inl e \<Rightarrow> Inl e
      | Inr this1 \<Rightarrow> MergeAll inflate this1 rest)"

text \<open>The combiner as constructed: nothing accumulated, no inflater yet.\<close>

definition new_combiner :: "bool \<Rightarrow> Log4J2PluginDatCombiner" where
  "new_combiner no_duplicates =
     \<lparr>categories' = [], no_duplicates' = no_duplicates, inflater' = False\<rparr>"

section \<open>Vocabulary of the claims\<close>

text \<open>The entry a catalog holds under a category and a key.\<close>

definition find_plugin :: "catalog \<Rightarrow> bytes \<Rightarrow> bytes \<Rightarrow> PluginEntry option" where
  "find_plugin categories c k =
     (case std_map_find categories c of None \<Rightarrow> None | Some ps \<Rightarrow> std_map_find ps k)"

text \<open>A catalog is a map of maps.\<close>

definition is_catalog :: "catalog \<Rightarrow> bool" where
  "is_catalog categories = (is_map categories \<and> list_all (\<lambda>cp. is_map (snd cp)) categories)"

text \<open>Every entry is stored under its own key.\<close>

definition keyed :: "catalog \<Rightarrow> bool" where
  "keyed categories = list_all (\<lambda>cp. list_all (\<lambda>p. key (snd p) = fst p) (snd cp)) categories"

text \<open>Every entry names the category that holds it.\<close>

definition category_ok :: "catalog \<Rightarrow> bool" where
  "category_ok categories =
     list_all (\<lambda>cp. list_all (\<lambda>p. category (snd p) = fst cp) (snd cp)) categories"

text \<open>All three together: what every catalog the loader builds satisfies.\<close>

definition well_formed :: "catalog \<Rightarrow> bool" where
  "well_formed categories = (is_catalog categories \<and> keyed categories \<and> category_ok categories)"



definition Encode :: "catalog \<Rightarrow> error + bytes" where
  "Encode categories = Inr (writeLog4j2PluginCacheFile categories)"

text \<open>A good stream whose unread bytes are \<open>bs\<close>.\<close>

definition good_at :: "istringstream \<Rightarrow> bytes \<Rightarrow> bool" where
  "good_at s bs = (\<not> failed s \<and> content s = bs)"

text \<open>The bytes of one entry and of one category with its entries, as the writer lays
  them out.\<close>

definition plugin_bytes :: "PluginEntry \<Rightarrow> bytes" where
  "plugin_bytes e =
     writeUTFString [] (key e) @ writeUTFString [] (className e) @ writeUTFString [] (name e)
       @ writeBoolean [] (printable e) @ writeBoolean [] (defer' e)"

definition category_bytes :: "bytes \<times> plugins \<Rightarrow> bytes" where
  "category_bytes cp =
     writeUTFString [] (fst cp) @ writeInt [] (of_nat (length (snd cp)))
       @ concat (map (\<lambda>p. plugin_bytes (snd p)) (snd cp))"

text \<open>
  The writer does not need its argument to be a map: applied to any list \<open>raw\<close> of
  categories with their entries it produces the buffer that lists them in that order,
  repeated names and keys included. What the loader makes of such a buffer is
  \<open>rebuild raw []\<close>: every listed entry, with the key it was written with and the
  category it was listed under, goes through the loader's insertion statement.
\<close>

definition rebuild_plugins :: "bytes \<Rightarrow> plugins \<Rightarrow> catalog \<Rightarrow> catalog" where
  "rebuild_plugins cat ps cats =
     foldl (\<lambda>cats p. subscript_insert cat (key (snd p), (snd p)\<lparr>category := cat\<rparr>) cats) cats ps"

definition rebuild :: "catalog \<Rightarrow> catalog \<Rightarrow> catalog" where
  "rebuild raw cats = foldl (\<lambda>cats cp. rebuild_plugins (fst cp) (snd cp) cats) cats raw"

text \<open>The entries a buffer lists under category \<open>c\<close> with key \<open>k\<close>, first to last.\<close>

definition occurrences :: "catalog \<Rightarrow> bytes \<Rightarrow> bytes \<Rightarrow> PluginEntry list" where
  "occurrences raw c k =
     concat (map (\<lambda>cp. if fst cp = c then filter (\<lambda>e. key e = k) (map snd (snd cp)) else []) raw)"

text \<open>
  What the wire format can hold: every string shorter than \<open>2 ^ 16\<close> bytes, every
  count below \<open>2 ^ 32\<close>.
\<close>

definition plugin_fits :: "PluginEntry \<Rightarrow> bool" where
  "plugin_fits e =
     (length (key e) < 65536 \<and> length (className e) < 65536 \<and> length (name e) < 65536)"

definition fits :: "catalog \<Rightarrow> bool" where
  "fits raw =
     (length raw < 2 ^ 32 \<and>
      list_all (\<lambda>cp. length (fst cp) < 65536 \<and> length (snd cp) < 2 ^ 32 \<and>
                 list_all (\<lambda>p. plugin_fits (snd p)) (snd cp)) raw)"

text \<open>No category without an entry.\<close>

definition populated :: "catalog \<Rightarrow> bool" where
  "populated categories = list_all (\<lambda>cp. snd cp \<noteq> []) categories"


section \<open>The wire format\<close>

text \<open>
  The layout of section 4.1 of the specification, written out byte by byte and without
  reference to the writer of the source: a count is four bytes and the length of a string
  two bytes, high byte first; a string is its length followed by its bytes; a flag is
  one byte. A count that does not fit its field is taken modulo \<open>2 ^ 32\<close>, a length
  modulo \<open>2 ^ 16\<close>. A buffer lists categories, each a name with its entries; \<open>listing\<close>
  is what a catalog lists, in the order of its iteration.
\<close>

definition wire_int :: "nat \<Rightarrow> bytes" where
  "wire_int n =
     (let m = n mod 2 ^ 32
      in [of_nat (m div 2 ^ 24), of_nat (m div 2 ^ 16 mod 256), of_nat (m div 2 ^ 8 mod 256),
          of_nat (m mod 256)])"

definition wire_string :: "bytes \<Rightarrow> bytes" where
  "wire_string str =
     (let n = length str mod 2 ^ 16
      in [of_nat (n div 256), of_nat (n mod 256)] @ str)"

definition wire_flag :: "bool \<Rightarrow> bytes" where
  "wire_flag v = [if v then 1 else 0]"

definition wire_entry :: "PluginEntry \<Rightarrow> bytes" where
  "wire_entry e =
     wire_string (key e) @ wire_string (className e) @ wire_string (name e)
       @ wire_flag (printable e) @ wire_flag (defer' e)"

definition wire_category :: "bytes \<times> PluginEntry list \<Rightarrow> bytes" where
  "wire_category ce =
     wire_string (fst ce) @ wire_int (length (snd ce)) @ concat (map wire_entry (snd ce))"

definition wire_layout :: "(bytes \<times> PluginEntry list) list \<Rightarrow> bytes" where
  "wire_layout ces = wire_int (length ces) @ concat (map wire_category ces)"

definition listing :: "catalog \<Rightarrow> (bytes \<times> PluginEntry list) list" where
  "listing categories = map (\<lambda>cp. (fst cp, map snd (snd cp))) categories"

section \<open>The field reads of a run\<close>









section \<open>Example data\<close>

text \<open>Uninitialised locals that happen to hold zero bytes.\<close>

definition zeroed :: "nat \<Rightarrow> byte" where
  "zeroed i = 0"

text \<open>The catalog of the end-to-end example, and the bytes of its layout with the
  low byte of the class name's length field left open.\<close>

definition appender :: PluginEntry where
  "appender =
     \<lparr>key = ascii ''Append'',
      className = ascii ''org.apache.logging.log4j.core.appender.Appender'',
      name = ascii ''Appender'', printable = True, defer' = False,
      category = ascii ''Core''\<rparr>"

definition core_catalog :: catalog where
  "core_catalog = [(ascii ''Core'', [(ascii ''Append'', appender)])]"

definition core_bytes :: "byte \<Rightarrow> bytes" where
  "core_bytes l =
     [0, 0, 0, 1] @ [0, 4] @ ascii ''Core'' @ [0, 0, 0, 1] @ [0, 6] @ ascii ''Append''
       @ [0, l] @ ascii ''org.apache.logging.log4j.core.appender.Appender''
       @ [0, 8] @ ascii ''Appender'' @ [1] @ [0]"

text \<open>A second jar's catalog with the same category and key, from another class.\<close>

definition other_appender :: PluginEntry where
  "other_appender =
     \<lparr>key = ascii ''Append'', className = ascii ''com.example.OtherAppender'',
      name = ascii ''Other'', printable = False, defer' = True,
      category = ascii ''Core''\<rparr>"

definition other_catalog :: catalog where
  "other_catalog = [(ascii ''Core'', [(ascii ''Append'', other_appender)])]"

text \<open>One category that lists the key \<open>Append\<close> twice: not a map, but a buffer can
  say so.\<close>

definition twice_listed :: catalog where
  "twice_listed =
     [(ascii ''Core'', [(ascii ''Append'', appender), (ascii ''Append'', other_appender)])]"

text \<open>A catalog with two plugins in \<open>Core\<close>; \<open>Alpha\<close> sorts before \<open>Append\<close>.\<close>

definition alpha :: PluginEntry where
  "alpha =
     \<lparr>key = ascii ''Alpha'', className = ascii ''com.example.Alpha'', name = ascii ''Alpha'',
      printable = True, defer' = False, category = ascii ''Core''\<rparr>"

definition two_plugins :: catalog where
  "two_plugins = [(ascii ''Core'', [(ascii ''Alpha'', alpha), (ascii ''Append'', appender)])]"

text \<open>A catalog whose one category holds no entry.\<close>

definition empty_category :: catalog where
  "empty_category = [(ascii ''Core'', [])]"

text \<open>A category name of \<open>2 ^ 16\<close> bytes.\<close>

definition long_name :: bytes where
  "long_name = replicate 65536 0x41"







section \<open>Byte order lemmas\<close>

lemma bit_FF: "bit (0xFF :: 'a::len word) k \<longleftrightarrow> k < 8 \<and> k < LENGTH('a)"
  using bit_mask_iff [where ?'a = "'a word", of 8 k]
  by (auto simp: mask_eq_exp_minus_1 dest: bit_imp_le_length)

lemma swap32_unfold:
  "swapByteOrder (v::32 word) =
     push_bit 0 (drop_bit 24 v AND 0xFF) OR push_bit 8 (drop_bit 16 v AND 0xFF)
       OR push_bit 16 (drop_bit 8 v AND 0xFF) OR push_bit 24 (drop_bit 0 v AND 0xFF)"
  by (simp add: swapByteOrder_def upt_rec ac_simps)

lemma swap16_unfold:
  "swapByteOrder (v::16 word) =
     push_bit 0 (drop_bit 8 v AND 0xFF) OR push_bit 8 (drop_bit 0 v AND 0xFF)"
  by (simp add: swapByteOrder_def upt_rec ac_simps)

lemma bit_swap32:
  "bit (swapByteOrder (v::32 word)) n \<longleftrightarrow>
     (n < 8 \<and> bit v (n + 24)) \<or> (8 \<le> n \<and> n < 16 \<and> bit v (n + 8)) \<or>
     (16 \<le> n \<and> n < 24 \<and> bit v (n - 8)) \<or> (24 \<le> n \<and> n < 32 \<and> bit v (n - 24))"
  unfolding swap32_unfold
  apply (simp only: bit_or_iff bit_push_bit_iff bit_and_iff bit_drop_bit_eq bit_FF)
  apply (cases "n < 8"; cases "n < 16"; cases "n < 24"; cases "n < 32")
  apply (auto simp: add.commute dest: bit_imp_le_length)
  done

lemma bit_swap16:
  "bit (swapByteOrder (v::16 word)) n \<longleftrightarrow>
     (n < 8 \<and> bit v (n + 8)) \<or> (8 \<le> n \<and> n < 16 \<and> bit v (n - 8))"
  unfolding swap16_unfold
  apply (simp only: bit_or_iff bit_push_bit_iff bit_and_iff bit_drop_bit_eq bit_FF)
  apply (cases "n < 8"; cases "n < 16")
  apply (auto simp: add.commute dest: bit_imp_le_length)
  done

lemma swap32_swap32: "swapByteOrder (swapByteOrder (v::32 word)) = v"
proof (rule bit_word_eqI)
  fix n assume "n < LENGTH(32)"
  then show "bit (swapByteOrder (swapByteOrder v)) n \<longleftrightarrow> bit v n"
    unfolding bit_swap32
    by (cases "n < 8"; cases "n < 16"; cases "n < 24") (auto simp: add.commute)
qed

lemma swap16_swap16: "swapByteOrder (swapByteOrder (v::16 word)) = v"
proof (rule bit_word_eqI)
  fix n assume "n < LENGTH(16)"
  then show "bit (swapByteOrder (swapByteOrder v)) n \<longleftrightarrow> bit v n"
    unfolding bit_swap16
    by (cases "n < 8") (auto simp: add.commute)
qed

lemma object_bytes32:
  "object_bytes (w::32 word) =
     [ucast w, ucast (drop_bit 8 w), ucast (drop_bit 16 w), ucast (drop_bit 24 w)]"
  by (simp add: object_bytes_def upt_rec)

lemma object_bytes16: "object_bytes (w::16 word) = [ucast w, ucast (drop_bit 8 w)]"
  by (simp add: object_bytes_def upt_rec)

lemma object_value_bytes32: "object_value (object_bytes (w::32 word)) = w"
  unfolding object_bytes32 object_value_def
proof (rule bit_word_eqI)
  fix n assume "n < LENGTH(32)"
  then show "bit (foldr (\<lambda>b v. ucast b OR push_bit 8 v)
      [ucast w :: byte, ucast (drop_bit 8 w), ucast (drop_bit 16 w), ucast (drop_bit 24 w)]
      (0 :: 32 word)) n \<longleftrightarrow> bit w n"
    by (cases "n < 8"; cases "n < 16"; cases "n < 24") (auto simp: bit_simps add.commute)
qed

lemma object_value_bytes16: "object_value (object_bytes (w::16 word)) = w"
  unfolding object_bytes16 object_value_def
proof (rule bit_word_eqI)
  fix n assume "n < LENGTH(16)"
  then show "bit (foldr (\<lambda>b v. ucast b OR push_bit 8 v)
      [ucast w :: byte, ucast (drop_bit 8 w)] (0 :: 16 word)) n \<longleftrightarrow> bit w n"
    by (cases "n < 8") (auto simp: bit_simps add.commute)
qed

lemma swapped16_bytes:
  "object_bytes (swapByteOrder (w :: 16 word)) = [ucast (drop_bit 8 w), ucast w]"
proof -
  have "(ucast (swapByteOrder w) :: byte) = ucast (drop_bit 8 w)"
    by (rule bit_word_eqI) (auto simp: bit_simps bit_swap16 add.commute)
  moreover have "(ucast (drop_bit 8 (swapByteOrder w)) :: byte) = ucast w"
    by (rule bit_word_eqI) (auto simp: bit_simps bit_swap16 add.commute)
  ultimately show ?thesis
    by (simp add: object_bytes16)
qed

section \<open>Ordered maps\<close>

lemma set_std_map_insert: "set (std_map_insert p m) \<subseteq> insert p (set m)"
  by (induction m) auto

lemma set_std_map_assign: "set (std_map_assign k v m) \<subseteq> insert (k, v) (set m)"
  by (induction m) auto

lemma is_map_Cons: "is_map (q # m) \<longleftrightarrow> (\<forall>r\<in>set m. fst q < fst r) \<and> is_map m"
  by (auto simp: is_map_def)

lemma is_map_Nil: "is_map []"
  by (simp add: is_map_def)

lemma is_map_insert: "is_map m \<Longrightarrow> is_map (std_map_insert p m)"
proof (induction m)
  case Nil
  then show ?case by (simp add: is_map_def)
next
  case (Cons q m)
  have "\<forall>r\<in>set (std_map_insert p m). fst q < fst r" if "fst q < fst p"
    using that Cons.prems set_std_map_insert [of p m] by (auto simp: is_map_Cons)
  with Cons show ?case
    by (auto simp: is_map_Cons)
qed

lemma is_map_assign: "is_map m \<Longrightarrow> is_map (std_map_assign k v m)"
proof (induction m)
  case Nil
  then show ?case by (simp add: is_map_def)
next
  case (Cons q m)
  have "\<forall>r\<in>set (std_map_assign k v m). fst q < fst r" if "fst q < k"
    using that Cons.prems set_std_map_assign [of k v m] by (auto simp: is_map_Cons)
  with Cons show ?case
    by (auto simp: is_map_Cons)
qed

lemma map_of_less: "\<forall>r\<in>set m. (k::'k::linorder) < fst r \<Longrightarrow> map_of m k = None"
  by (induction m) auto

lemma find_insert:
  "is_map m \<Longrightarrow> std_map_find (std_map_insert p m) k =
     (if k = fst p \<and> std_map_find m k = None then Some (snd p) else std_map_find m k)"
proof (induction m)
  case Nil
  then show ?case by (simp add: std_map_find_def)
next
  case (Cons q m)
  have "map_of m j = None" if "j < fst q" for j
    using that Cons.prems by (intro map_of_less) (auto simp: is_map_Cons)
  with Cons show ?case
    by (auto simp: std_map_find_def is_map_Cons)
qed

lemma find_assign:
  "is_map m \<Longrightarrow> std_map_find (std_map_assign k v m) j =
     (if j = k then Some v else std_map_find m j)"
proof (induction m)
  case Nil
  then show ?case by (simp add: std_map_find_def)
next
  case (Cons q m)
  then show ?case
    by (auto simp: std_map_find_def is_map_Cons map_of_less)
qed

lemma find_mem: "std_map_find m k = Some v \<Longrightarrow> (k, v) \<in> set m"
  by (simp add: std_map_find_def map_of_SomeD)

lemma insert_at_end: "\<forall>r\<in>set m. fst r < fst p \<Longrightarrow> std_map_insert p m = m @ [p]"
  by (induction m) auto

lemma assign_at_end: "\<forall>r\<in>set m. fst r < k \<Longrightarrow> std_map_assign k v m = m @ [(k, v)]"
  by (induction m) auto

lemma assign_last: "\<forall>r\<in>set m. fst r < k \<Longrightarrow> std_map_assign k v (m @ [(k, w)]) = m @ [(k, v)]"
  by (induction m) auto

lemma find_last: "\<forall>r\<in>set m. fst r < (k::'k::linorder) \<Longrightarrow> std_map_find (m @ [(k, w)]) k = Some w"
  by (induction m) (auto simp: std_map_find_def)

lemma find_absent: "\<forall>r\<in>set m. fst r < (k::'k::linorder) \<Longrightarrow> std_map_find m k = None"
  by (induction m) (auto simp: std_map_find_def)


section \<open>Insertion into a catalog\<close>

lemma list_all_insert: "P p \<Longrightarrow> list_all P m \<Longrightarrow> list_all P (std_map_insert p m)"
  using set_std_map_insert [of p m] by (auto simp: list_all_iff)

lemma list_all_assign: "P (k, v) \<Longrightarrow> list_all P m \<Longrightarrow> list_all P (std_map_assign k v m)"
  using set_std_map_assign [of k v m] by (auto simp: list_all_iff)

lemma subscript_cases: "std_map_subscript m k = [] \<or> (k, std_map_subscript m k) \<in> set m"
  by (auto simp: std_map_subscript_def split: option.splits dest: find_mem)

lemma list_all_subscript: "list_all (\<lambda>cp. Q (fst cp) (snd cp)) m \<Longrightarrow> Q k [] \<Longrightarrow> Q k (std_map_subscript m k)"
  using subscript_cases [of m k] by (auto simp: list_all_iff)

lemma is_map_subscript: "list_all (\<lambda>cp. is_map (snd cp)) m \<Longrightarrow> is_map (std_map_subscript m k)"
  using list_all_subscript [of "\<lambda>c ps. is_map ps" m k] by (simp add: is_map_Nil)

lemma is_catalog_Nil: "is_catalog []"
  by (simp add: is_catalog_def is_map_Nil)

lemma is_catalog_subscript_insert: "is_catalog cats \<Longrightarrow> is_catalog (subscript_insert c p cats)"
  unfolding is_catalog_def subscript_insert_def
  by (auto intro!: is_map_assign list_all_assign is_map_insert is_map_subscript)

lemma is_catalog_assign: "is_catalog cats \<Longrightarrow> is_map ps \<Longrightarrow> is_catalog (std_map_assign c ps cats)"
  unfolding is_catalog_def
  by (auto intro!: is_map_assign list_all_assign)

lemma keyed_subscript_insert: "keyed cats \<Longrightarrow> key (snd p) = fst p \<Longrightarrow> keyed (subscript_insert c p cats)"
  unfolding keyed_def subscript_insert_def
  using list_all_subscript [of "\<lambda>c ps. list_all (\<lambda>p. key (snd p) = fst p) ps" cats c]
  by (auto intro!: list_all_assign list_all_insert)

lemma category_ok_subscript_insert:
  "category_ok cats \<Longrightarrow> category (snd p) = c \<Longrightarrow> category_ok (subscript_insert c p cats)"
  unfolding category_ok_def subscript_insert_def
  using list_all_subscript [of "\<lambda>c ps. list_all (\<lambda>p. category (snd p) = c) ps" cats c]
  by (auto intro!: list_all_assign list_all_insert)

lemma category_ok_assign:
  "category_ok cats \<Longrightarrow> list_all (\<lambda>p. category (snd p) = c) ps \<Longrightarrow> category_ok (std_map_assign c ps cats)"
  unfolding category_ok_def
  by (auto intro!: list_all_assign)

lemma find_subscript: "std_map_find (std_map_subscript cats c) k = find_plugin cats c k"
  by (simp add: std_map_subscript_def find_plugin_def std_map_find_def split: option.splits)

lemma find_plugin_subscript_insert:
  assumes "is_catalog cats"
  shows "find_plugin (subscript_insert c p cats) d k =
     (if d = c \<and> k = fst p \<and> find_plugin cats d k = None then Some (snd p)
      else find_plugin cats d k)"
proof -
  let ?inner = "std_map_subscript cats c"
  from assms have m: "is_map cats" and i: "is_map ?inner"
    by (simp_all add: is_catalog_def is_map_subscript)
  have "find_plugin (subscript_insert c p cats) d k =
      (if d = c then std_map_find (std_map_insert p ?inner) k else find_plugin cats d k)"
    by (simp add: find_plugin_def subscript_insert_def find_assign [OF m])
  also have "std_map_find (std_map_insert p ?inner) k =
      (if k = fst p \<and> find_plugin cats c k = None then Some (snd p) else find_plugin cats c k)"
    by (auto simp: find_insert [OF i] find_subscript)
  finally show ?thesis
    by auto
qed

lemma find_plugin_assign:
  "is_map cats \<Longrightarrow> find_plugin (std_map_assign c ps cats) d k =
     (if d = c then std_map_find ps k else find_plugin cats d k)"
  by (simp add: find_plugin_def find_assign)


section \<open>What the loader builds\<close>

lemma well_formed_Nil: "well_formed []"
  by (simp add: well_formed_def is_catalog_Nil keyed_def category_ok_def)

lemma well_formed_subscript_insert:
  "well_formed cats \<Longrightarrow> key e = k \<Longrightarrow> category e = c \<Longrightarrow> well_formed (subscript_insert c (k, e) cats)"
  by (simp add: well_formed_def is_catalog_subscript_insert keyed_subscript_insert
      category_ok_subscript_insert)

lemma well_formed_loadEntries:
  "well_formed cats \<Longrightarrow> well_formed (fst (loadEntries n cat cats s))"
proof (induction n arbitrary: cats s)
  case 0
  then show ?case by simp
next
  case (Suc n)
  show ?case
    by (auto simp: split_def Let_def intro!: Suc.IH well_formed_subscript_insert Suc.prems)
qed

lemma well_formed_loadCategories:
  "well_formed cats \<Longrightarrow> well_formed (fst (loadCategories n cats s))"
proof (induction n arbitrary: cats s)
  case 0
  then show ?case by simp
next
  case (Suc n)
  show ?case
    by (auto simp: split_def Let_def intro!: Suc.IH well_formed_loadEntries Suc.prems)
qed

lemma well_formed_load: "well_formed (loadLog4j2PluginCacheFile u bs)"
  by (simp add: loadLog4j2PluginCacheFile_def load_run_def split_def Let_def
      well_formed_loadCategories well_formed_Nil)

section \<open>The category field through a merge\<close>

lemma category_ok_mergePlugins:
  "mergePlugins nd cid ps cats = Inr cats' \<Longrightarrow> category_ok cats \<Longrightarrow>
   list_all (\<lambda>p. category (snd p) = cid) ps \<Longrightarrow> category_ok cats'"
proof (induction ps arbitrary: cats)
  case Nil
  then show ?case by simp
next
  case (Cons p ps)
  from Cons.prems show ?case
    by (auto simp: Let_def split: if_splits intro!: Cons.IH category_ok_subscript_insert)
qed

lemma category_ok_Cons:
  "category_ok (cp # cats) \<longleftrightarrow> list_all (\<lambda>p. category (snd p) = fst cp) (snd cp) \<and> category_ok cats"
  by (simp add: category_ok_def)

lemma category_ok_mergeCategories:
  "mergeCategories nd new cats = Inr cats' \<Longrightarrow> category_ok new \<Longrightarrow> category_ok cats \<Longrightarrow>
   category_ok cats'"
proof (induction new arbitrary: cats)
  case Nil
  then show ?case by simp
next
  case (Cons cp new)
  show ?case
  proof (cases "std_map_find cats (fst cp)")
    case None
    with Cons.prems show ?thesis
      by (auto simp: Let_def category_ok_Cons intro!: Cons.IH category_ok_assign)
  next
    case (Some existing)
    with Cons.prems obtain cats1 where
      1: "mergePlugins nd (fst cp) (snd cp) cats = Inr cats1" and
      2: "mergeCategories nd new cats1 = Inr cats'"
      by (auto simp: Let_def split: sum.splits)
    from 1 Cons.prems have "category_ok cats1"
      by (auto simp: category_ok_Cons intro: category_ok_mergePlugins)
    with 2 Cons.prems show ?thesis
      by (auto simp: category_ok_Cons intro: Cons.IH)
  qed
qed

lemma category_ok_Merge:
  "Merge inflate this entry = Inr this1 \<Longrightarrow> category_ok (categories' this) \<Longrightarrow>
   category_ok (categories' this1)"
  using well_formed_load
  by (auto simp: Merge_def Let_def well_formed_def split: prod.splits if_splits sum.splits
      dest!: category_ok_mergeCategories)

section \<open>Reading back what was written\<close>

lemma uninitialised_good_at: "good_at s bs \<Longrightarrow> good_at (snd (uninitialised n s)) bs"
  by (simp add: good_at_def uninitialised_def)

lemma stream_read_good_at:
  "good_at s (xs @ rest) \<Longrightarrow> length xs = n \<Longrightarrow>
   fst (stream_read n dst s) = xs \<and> good_at (snd (stream_read n dst s)) rest"
  by (simp add: good_at_def stream_read_def)

lemma length_object_bytes: "length (object_bytes (w :: 'a::len word)) = LENGTH('a) div 8"
  by (simp add: object_bytes_def)

lemma readInt_writeInt:
  assumes "good_at s (writeInt [] v @ rest)"
  shows "fst (readInt s) = v \<and> good_at (snd (readInt s)) rest"
proof -
  obtain v0 s0 where u: "uninitialised 4 s = (v0, s0)"
    by (cases "uninitialised 4 s")
  with assms uninitialised_good_at [of s _ 4] have "good_at s0 (object_bytes (swapByteOrder v) @ rest)"
    by (simp add: writeInt_def)
  from stream_read_good_at [OF this, of 4 v0] u show ?thesis
    by (simp add: readInt_def split_def length_object_bytes object_value_bytes32 swap32_swap32)
qed

lemma readBool_writeBoolean:
  assumes "good_at s (writeBoolean [] v @ rest)"
  shows "fst (readBool s) = v \<and> good_at (snd (readBool s)) rest"
proof -
  obtain v0 s0 where u: "uninitialised 1 s = (v0, s0)"
    by (cases "uninitialised 1 s")
  with assms uninitialised_good_at [of s _ 1] have "good_at s0 ([if v then 1 else 0] @ rest)"
    by (simp add: writeBoolean_def)
  from stream_read_good_at [OF this, of 1 v0] u show ?thesis
    by (simp add: readBool_def split_def)
qed

lemma readUTFString_writeUTFString:
  assumes "good_at s (writeUTFString [] str @ rest)" and "length str < 65536"
  shows "fst (readUTFString s) = str \<and> good_at (snd (readUTFString s)) rest"
proof -
  let ?w = "of_nat (length str) :: 16 word"
  obtain l0 s0 where u: "uninitialised 2 s = (l0, s0)"
    by (cases "uninitialised 2 s")
  with assms uninitialised_good_at [of s _ 2]
  have "good_at s0 (object_bytes (swapByteOrder ?w) @ str @ rest)"
    by (simp add: writeUTFString_def)
  from stream_read_good_at [OF this, of 2 l0]
  have 1: "fst (stream_read 2 l0 s0) = object_bytes (swapByteOrder ?w)"
    and 2: "good_at (snd (stream_read 2 l0 s0)) (str @ rest)"
    by (simp_all add: length_object_bytes)
  have 3: "unat ?w = length str"
    using assms(2) by (simp add: unat_of_nat)
  from stream_read_good_at [OF 2, of "length str" "replicate (length str) 0"] u 1 3 show ?thesis
    by (simp add: readUTFString_def split_def Let_def object_value_bytes16 swap16_swap16)
qed


section \<open>The layout of the written bytes\<close>

lemma writePlugins_layout:
  "writePlugins buffer ps = buffer @ concat (map (\<lambda>p. plugin_bytes (snd p)) ps)"
proof (induction ps arbitrary: buffer)
  case Nil
  then show ?case by simp
next
  case (Cons p ps)
  show ?case
    by (simp add: Cons.IH Let_def plugin_bytes_def writeUTFString_def writeBoolean_def)
qed

lemma writeCategories_layout:
  "writeCategories buffer raw = buffer @ concat (map category_bytes raw)"
proof (induction raw arbitrary: buffer)
  case Nil
  then show ?case by simp
next
  case (Cons cp raw)
  show ?case
    by (simp add: Cons.IH Let_def category_bytes_def writePlugins_layout writeUTFString_def
        writeInt_def)
qed

lemma write_layout:
  "writeLog4j2PluginCacheFile raw =
     writeInt [] (of_nat (length raw)) @ concat (map category_bytes raw)"
  by (simp add: writeLog4j2PluginCacheFile_def writeCategories_layout)

section \<open>Decoding a written buffer\<close>

lemma entry_rebuilt:
  "\<lparr>key = key e, className = className e, name = name e, printable = printable e,
    defer' = defer' e, category = cat\<rparr> = e\<lparr>category := cat\<rparr>"
  by (cases e) simp

lemma loadEntries_step:
  assumes "good_at s (plugin_bytes e @ rest)" and "plugin_fits e"
  shows "\<exists>s'. good_at s' rest \<and>
     loadEntries (Suc n) cat cats s =
       loadEntries n cat (subscript_insert cat (key e, e\<lparr>category := cat\<rparr>) cats) s'"
proof -
  from assms(1) have 0: "good_at s (writeUTFString [] (key e) @ writeUTFString [] (className e)
      @ writeUTFString [] (name e) @ writeBoolean [] (printable e) @ writeBoolean [] (defer' e) @ rest)"
    by (simp add: plugin_bytes_def)
  obtain k s1 where r1: "readUTFString s = (k, s1)" by (cases "readUTFString s")
  obtain cls s2 where r2: "readUTFString s1 = (cls, s2)" by (cases "readUTFString s1")
  obtain nm s3 where r3: "readUTFString s2 = (nm, s3)" by (cases "readUTFString s2")
  obtain pr s4 where r4: "readBool s3 = (pr, s4)" by (cases "readBool s3")
  obtain df s5 where r5: "readBool s4 = (df, s5)" by (cases "readBool s4")
  from readUTFString_writeUTFString [OF 0] assms(2) r1
  have 1: "k = key e" "good_at s1 (writeUTFString [] (className e)
      @ writeUTFString [] (name e) @ writeBoolean [] (printable e) @ writeBoolean [] (defer' e) @ rest)"
    by (simp_all add: plugin_fits_def)
  from readUTFString_writeUTFString [OF 1(2)] assms(2) r2
  have 2: "cls = className e" "good_at s2 (writeUTFString [] (name e)
      @ writeBoolean [] (printable e) @ writeBoolean [] (defer' e) @ rest)"
    by (simp_all add: plugin_fits_def)
  from readUTFString_writeUTFString [OF 2(2)] assms(2) r3
  have 3: "nm = name e" "good_at s3 (writeBoolean [] (printable e) @ writeBoolean [] (defer' e) @ rest)"
    by (simp_all add: plugin_fits_def)
  from readBool_writeBoolean [OF 3(2)] r4
  have 4: "pr = printable e" "good_at s4 (writeBoolean [] (defer' e) @ rest)"
    by simp_all
  from readBool_writeBoolean [OF 4(2)] r5
  have 5: "df = defer' e" "good_at s5 rest"
    by simp_all
  have "loadEntries (Suc n) cat cats s =
       loadEntries n cat (subscript_insert cat (key e, e\<lparr>category := cat\<rparr>) cats) s5"
    by (simp add: r1 r2 r3 r4 r5 1 2 3 4 5 entry_rebuilt)
  with 5 show ?thesis by blast
qed

lemma loadEntries_layout:
  "good_at s (concat (map (\<lambda>p. plugin_bytes (snd p)) ps) @ rest) \<Longrightarrow>
   list_all (\<lambda>p. plugin_fits (snd p)) ps \<Longrightarrow>
   fst (loadEntries (length ps) cat cats s) = rebuild_plugins cat ps cats \<and>
   good_at (snd (loadEntries (length ps) cat cats s)) rest"
proof (induction ps arbitrary: cats s)
  case Nil
  then show ?case by (simp add: rebuild_plugins_def)
next
  case (Cons p ps)
  from Cons.prems have "good_at s (plugin_bytes (snd p) @ concat (map (\<lambda>p. plugin_bytes (snd p)) ps) @ rest)"
    and "plugin_fits (snd p)"
    by simp_all
  from loadEntries_step [OF this, of "length ps" cat cats]
  obtain s' where s': "good_at s' (concat (map (\<lambda>p. plugin_bytes (snd p)) ps) @ rest)"
    and step: "loadEntries (Suc (length ps)) cat cats s =
       loadEntries (length ps) cat (subscript_insert cat (key (snd p), (snd p)\<lparr>category := cat\<rparr>) cats) s'"
    by blast
  from Cons.IH [OF s'] Cons.prems(2) step show ?case
    by (simp add: rebuild_plugins_def)
qed

lemma loadCategories_layout:
  "good_at s (concat (map category_bytes raw) @ rest) \<Longrightarrow>
   list_all (\<lambda>cp. length (fst cp) < 65536 \<and> length (snd cp) < 2 ^ 32 \<and>
                 list_all (\<lambda>p. plugin_fits (snd p)) (snd cp)) raw \<Longrightarrow>
   fst (loadCategories (length raw) cats s) = rebuild raw cats \<and>
   good_at (snd (loadCategories (length raw) cats s)) rest"
proof (induction raw arbitrary: cats s)
  case Nil
  then show ?case by (simp add: rebuild_def)
next
  case (Cons cp raw)
  let ?ps = "snd cp"
  let ?tail = "concat (map category_bytes raw) @ rest"
  from Cons.prems have fit: "length (fst cp) < 65536" "length ?ps < 2 ^ 32"
      "list_all (\<lambda>p. plugin_fits (snd p)) ?ps"
    by simp_all
  from Cons.prems(1) have 0: "good_at s (writeUTFString [] (fst cp) @ writeInt [] (of_nat (length ?ps))
       @ concat (map (\<lambda>p. plugin_bytes (snd p)) ?ps) @ ?tail)"
    by (simp add: category_bytes_def [of cp])
  obtain c s1 where r1: "readUTFString s = (c, s1)" by (cases "readUTFString s")
  obtain entries s2 where r2: "readInt s1 = (entries, s2)" by (cases "readInt s1")
  from readUTFString_writeUTFString [OF 0 fit(1)] r1
  have 1: "c = fst cp" "good_at s1 (writeInt [] (of_nat (length ?ps))
       @ concat (map (\<lambda>p. plugin_bytes (snd p)) ?ps) @ ?tail)"
    by simp_all
  from readInt_writeInt [OF 1(2)] r2
  have 2: "entries = of_nat (length ?ps)" "good_at s2 (concat (map (\<lambda>p. plugin_bytes (snd p)) ?ps) @ ?tail)"
    by simp_all
  have n: "unat entries = length ?ps"
    using fit(2) by (simp add: 2(1) unat_of_nat)
  from loadEntries_layout [OF 2(2) fit(3), of "fst cp" cats]
  have 3: "fst (loadEntries (length ?ps) (fst cp) cats s2) = rebuild_plugins (fst cp) ?ps cats"
    "good_at (snd (loadEntries (length ?ps) (fst cp) cats s2)) ?tail"
    by simp_all
  from Cons.IH [OF 3(2)] Cons.prems(2) 3(1) show ?case
    by (simp add: r1 r2 1(1) n split_def rebuild_def)
qed

lemma load_run_layout:
  assumes "fits raw"
  shows "fst (load_run u (writeLog4j2PluginCacheFile raw)) = rebuild raw [] \<and>
     good_at (snd (load_run u (writeLog4j2PluginCacheFile raw))) []"
proof -
  let ?s = "\<lparr>content = writeLog4j2PluginCacheFile raw, failed = False, indeterminate = u\<rparr>"
  have 0: "good_at ?s (writeInt [] (of_nat (length raw)) @ concat (map category_bytes raw) @ [])"
    by (simp add: good_at_def write_layout)
  obtain n s1 where r: "readInt ?s = (n, s1)" by (cases "readInt ?s")
  from readInt_writeInt [OF 0] r
  have 1: "n = of_nat (length raw)" "good_at s1 (concat (map category_bytes raw) @ [])"
    by simp_all
  have n: "unat n = length raw"
    using assms by (simp add: 1(1) unat_of_nat fits_def)
  from loadCategories_layout [OF 1(2), of "[]"] assms show ?thesis
    by (simp add: load_run_def r n fits_def)
qed

lemma load_layout:
  "fits raw \<Longrightarrow> loadLog4j2PluginCacheFile u (writeLog4j2PluginCacheFile raw) = rebuild raw []"
  by (simp add: loadLog4j2PluginCacheFile_def load_run_layout)


section \<open>Decoding the encoding of a catalog\<close>

lemma is_map_append:
  "is_map (xs @ ys) \<longleftrightarrow> is_map xs \<and> is_map ys \<and> (\<forall>x\<in>set xs. \<forall>y\<in>set ys. fst x < fst y)"
  by (auto simp: is_map_def sorted_wrt_append)

lemma subscript_insert_new:
  assumes "\<forall>q\<in>set pre. fst q < c"
  shows "subscript_insert c p pre = pre @ [(c, [p])]"
  using assms by (simp add: subscript_insert_def std_map_subscript_def find_absent assign_at_end)

lemma subscript_insert_last:
  assumes "\<forall>q\<in>set pre. fst q < c" and "\<forall>r\<in>set done. fst r < fst p"
  shows "subscript_insert c p (pre @ [(c, done)]) = pre @ [(c, done @ [p])]"
  using assms
  by (simp add: subscript_insert_def std_map_subscript_def find_last assign_last insert_at_end)

lemma own_entry: "category e = c \<Longrightarrow> e\<lparr>category := c\<rparr> = e"
  by (cases e) simp

lemma rebuild_plugins_last:
  "\<forall>q\<in>set pre. fst q < c \<Longrightarrow> is_map (done @ ps) \<Longrightarrow>
   list_all (\<lambda>p. key (snd p) = fst p) ps \<Longrightarrow> list_all (\<lambda>p. category (snd p) = c) ps \<Longrightarrow>
   rebuild_plugins c ps (pre @ [(c, done)]) = pre @ [(c, done @ ps)]"
proof (induction ps arbitrary: "done")
  case Nil
  then show ?case by (simp add: rebuild_plugins_def)
next
  case (Cons p ps)
  from Cons.prems have p: "(key (snd p), (snd p)\<lparr>category := c\<rparr>) = p"
    by (cases p) (simp add: own_entry)
  from Cons.prems have "\<forall>r\<in>set done. fst r < fst p"
    by (auto simp: is_map_append)
  with Cons.prems(1) have "subscript_insert c p (pre @ [(c, done)]) = pre @ [(c, done @ [p])]"
    by (rule subscript_insert_last)
  moreover from Cons.prems have "rebuild_plugins c ps (pre @ [(c, done @ [p])]) = pre @ [(c, (done @ [p]) @ ps)]"
    by (intro Cons.IH) simp_all
  ultimately show ?case
    by (simp add: rebuild_plugins_def p)
qed

lemma rebuild_plugins_new:
  assumes "\<forall>q\<in>set pre. fst q < c" and "is_map ps" and "ps \<noteq> []"
    and "list_all (\<lambda>p. key (snd p) = fst p) ps" and "list_all (\<lambda>p. category (snd p) = c) ps"
  shows "rebuild_plugins c ps pre = pre @ [(c, ps)]"
proof (cases ps)
  case Nil
  with assms show ?thesis by simp
next
  case (Cons p qs)
  from assms Cons have p: "(key (snd p), (snd p)\<lparr>category := c\<rparr>) = p"
    by (cases p) (simp add: own_entry)
  from assms Cons have "rebuild_plugins c qs (pre @ [(c, [p])]) = pre @ [(c, [p] @ qs)]"
    by (intro rebuild_plugins_last) simp_all
  with assms(1) show ?thesis
    by (simp add: Cons rebuild_plugins_def p subscript_insert_new)
qed

lemma rebuild_catalog:
  "is_map (pre @ raw) \<Longrightarrow> list_all (\<lambda>cp. is_map (snd cp)) raw \<Longrightarrow> keyed raw \<Longrightarrow>
   category_ok raw \<Longrightarrow> list_all (\<lambda>cp. snd cp \<noteq> []) raw \<Longrightarrow> rebuild raw pre = pre @ raw"
proof (induction raw arbitrary: pre)
  case Nil
  then show ?case by (simp add: rebuild_def)
next
  case (Cons cp raw)
  from Cons.prems have "\<forall>q\<in>set pre. fst q < fst cp"
    by (auto simp: is_map_append)
  with Cons.prems have 1: "rebuild_plugins (fst cp) (snd cp) pre = pre @ [(fst cp, snd cp)]"
    by (intro rebuild_plugins_new) (simp_all add: keyed_def category_ok_def)
  from Cons.prems have "rebuild raw (pre @ [cp]) = (pre @ [cp]) @ raw"
    by (intro Cons.IH) (simp_all add: keyed_def category_ok_def)
  with 1 show ?case
    by (simp add: rebuild_def)
qed

section \<open>Lookup in a decoded buffer\<close>

lemma is_catalog_rebuild_plugins: "is_catalog cats \<Longrightarrow> is_catalog (rebuild_plugins cat ps cats)"
  unfolding rebuild_plugins_def
  by (induction ps arbitrary: cats) (simp_all add: is_catalog_subscript_insert)

lemma find_rebuild_plugins:
  "is_catalog cats \<Longrightarrow>
   find_plugin (rebuild_plugins cat ps cats) d k =
     (case find_plugin cats d k of
        Some e \<Rightarrow> Some e
      | None \<Rightarrow> (if d = cat
                 then (case filter (\<lambda>e. key e = k) (map snd ps) of
                         [] \<Rightarrow> None | e # _ \<Rightarrow> Some (e\<lparr>category := cat\<rparr>))
                 else None))"
proof (induction ps arbitrary: cats)
  case Nil
  then show ?case by (simp add: rebuild_plugins_def split: option.splits)
next
  case (Cons p ps)
  let ?cats = "subscript_insert cat (key (snd p), (snd p)\<lparr>category := cat\<rparr>) cats"
  have "rebuild_plugins cat (p # ps) cats = rebuild_plugins cat ps ?cats"
    by (simp add: rebuild_plugins_def)
  moreover from Cons.prems have "is_catalog ?cats"
    by (rule is_catalog_subscript_insert)
  ultimately show ?case
    using Cons.prems
    by (simp add: Cons.IH find_plugin_subscript_insert split: option.splits)
qed

lemma find_rebuild:
  "is_catalog cats \<Longrightarrow>
   find_plugin (rebuild raw cats) d k =
     (case find_plugin cats d k of
        Some e \<Rightarrow> Some e
      | None \<Rightarrow> (case occurrences raw d k of [] \<Rightarrow> None | e # _ \<Rightarrow> Some (e\<lparr>category := d\<rparr>)))"
proof (induction raw arbitrary: cats)
  case Nil
  then show ?case by (simp add: rebuild_def occurrences_def split: option.splits)
next
  case (Cons cp raw)
  let ?cats = "rebuild_plugins (fst cp) (snd cp) cats"
  have "rebuild (cp # raw) cats = rebuild raw ?cats"
    by (simp add: rebuild_def)
  moreover from Cons.prems have "is_catalog ?cats"
    by (rule is_catalog_rebuild_plugins)
  ultimately show ?case
    using Cons.prems
    by (auto simp: Cons.IH find_rebuild_plugins occurrences_def split: option.splits list.splits)
qed

lemma find_plugin_Nil: "find_plugin [] c k = None"
  by (simp add: find_plugin_def std_map_find_def)

section \<open>The loader never replaces an entry\<close>

lemma find_loadEntries_kept:
  "is_catalog cats \<Longrightarrow> find_plugin cats c k = Some e \<Longrightarrow>
   is_catalog (fst (loadEntries n cat cats s)) \<and>
   find_plugin (fst (loadEntries n cat cats s)) c k = Some e"
proof (induction n arbitrary: cats s)
  case 0
  then show ?case by simp
next
  case (Suc n)
  have "is_catalog (subscript_insert cat p cats) \<and>
      find_plugin (subscript_insert cat p cats) c k = Some e" for p
    using Suc.prems by (simp add: is_catalog_subscript_insert find_plugin_subscript_insert)
  then show ?case
    by (simp add: split_def Let_def Suc.IH)
qed

lemma find_loadCategories_kept:
  "is_catalog cats \<Longrightarrow> find_plugin cats c k = Some e \<Longrightarrow>
   is_catalog (fst (loadCategories n cats s)) \<and>
   find_plugin (fst (loadCategories n cats s)) c k = Some e"
proof (induction n arbitrary: cats s)
  case 0
  then show ?case by simp
next
  case (Suc n)
  have "is_catalog (fst (loadEntries m cat cats t)) \<and>
      find_plugin (fst (loadEntries m cat cats t)) c k = Some e" for m cat t
    using Suc.prems by (rule find_loadEntries_kept)
  then show ?case
    by (simp add: split_def Let_def Suc.IH)
qed

section \<open>Merging\<close>

lemma find_iff_key: "std_map_find m k \<noteq> None \<longleftrightarrow> k \<in> fst ` set m"
  by (simp add: std_map_find_def map_of_eq_None_iff)

lemma find_plugin_Cons:
  "find_plugin (cp # rest) d k =
     (if d = fst cp then std_map_find (snd cp) k else find_plugin rest d k)"
  by (cases cp) (simp add: find_plugin_def std_map_find_def)

lemma find_plugin_category: "find_plugin cats d k \<noteq> None \<Longrightarrow> d \<in> fst ` set cats"
  by (auto simp: find_plugin_def std_map_find_def map_of_eq_None_iff split: option.splits
      dest: map_of_SomeD intro: rev_image_eqI)

lemma find_plugin_found: "find_plugin cats d k \<noteq> None \<Longrightarrow> std_map_find cats d \<noteq> None"
  by (auto simp: find_plugin_def split: option.splits)

lemma is_catalog_Cons:
  "is_catalog (cp # rest) \<longleftrightarrow>
     is_map (snd cp) \<and> (\<forall>r\<in>set rest. fst cp < fst r) \<and> is_catalog rest"
  by (auto simp: is_catalog_def is_map_Cons)

lemma is_catalog_mergePlugins:
  "mergePlugins nd cid ps cats = Inr cats' \<Longrightarrow> is_catalog cats \<Longrightarrow> is_catalog cats'"
proof (induction ps arbitrary: cats)
  case Nil
  then show ?case by simp
next
  case (Cons p ps)
  from Cons.prems show ?case
    by (auto simp: Let_def split: if_splits intro!: Cons.IH is_catalog_subscript_insert)
qed

lemma find_mergePlugins_kept:
  "mergePlugins nd cid ps cats = Inr cats' \<Longrightarrow> is_catalog cats \<Longrightarrow>
   find_plugin cats c k = Some e \<Longrightarrow> find_plugin cats' c k = Some e"
proof (induction ps arbitrary: cats)
  case Nil
  then show ?case by simp
next
  case (Cons p ps)
  let ?cats = "subscript_insert cid p cats"
  from Cons.prems(1) have 1: "mergePlugins nd cid ps ?cats = Inr cats'"
    by (simp add: Let_def split: if_splits)
  from Cons.prems have 2: "is_catalog ?cats" "find_plugin ?cats c k = Some e"
    by (simp_all add: is_catalog_subscript_insert find_plugin_subscript_insert)
  from Cons.IH [OF 1 2] show ?case .
qed

lemma find_mergePlugins_other:
  "mergePlugins nd cid ps cats = Inr cats' \<Longrightarrow> is_catalog cats \<Longrightarrow> d \<noteq> cid \<Longrightarrow>
   find_plugin cats' d k = find_plugin cats d k"
proof (induction ps arbitrary: cats)
  case Nil
  then show ?case by simp
next
  case (Cons p ps)
  let ?cats = "subscript_insert cid p cats"
  from Cons.prems(1) have 1: "mergePlugins nd cid ps ?cats = Inr cats'"
    by (simp add: Let_def split: if_splits)
  from Cons.prems have 2: "is_catalog ?cats" "find_plugin ?cats d k = find_plugin cats d k"
    by (simp_all add: is_catalog_subscript_insert find_plugin_subscript_insert)
  from Cons.IH [OF 1 2(1) Cons.prems(3)] 2(2) show ?case
    by simp
qed

lemma mergePlugins_lenient: "\<exists>cats'. mergePlugins False cid ps cats = Inr cats'"
  by (induction ps arbitrary: cats) (simp_all add: Let_def)

lemma mergeCategories_lenient_kept:
  "is_catalog cats \<Longrightarrow> is_catalog new \<Longrightarrow> find_plugin cats c k = Some e \<Longrightarrow>
   \<exists>cats'. mergeCategories False new cats = Inr cats' \<and> is_catalog cats' \<and>
     find_plugin cats' c k = Some e"
proof (induction new arbitrary: cats)
  case Nil
  then show ?case by simp
next
  case (Cons cp new)
  from Cons.prems(2) have new: "is_catalog new" "is_map (snd cp)"
    by (simp_all add: is_catalog_Cons)
  show ?case
  proof (cases "std_map_find cats (fst cp)")
    case None
    let ?cats = "std_map_assign (fst cp) (snd cp) cats"
    from None Cons.prems(3) have "c \<noteq> fst cp"
      by (auto simp: find_plugin_def)
    moreover from Cons.prems(1) have "is_map cats"
      by (simp add: is_catalog_def)
    ultimately have "find_plugin ?cats c k = Some e"
      using Cons.prems(3) by (simp add: find_plugin_assign)
    moreover from Cons.prems(1) new(2) have "is_catalog ?cats"
      by (rule is_catalog_assign)
    ultimately show ?thesis
      using Cons.IH [OF _ new(1), of ?cats] None
      by (simp add: Let_def)
  next
    case (Some existing)
    obtain cats1 where 1: "mergePlugins False (fst cp) (snd cp) cats = Inr cats1"
      using mergePlugins_lenient by blast
    from 1 Cons.prems have "is_catalog cats1" "find_plugin cats1 c k = Some e"
      by (auto intro: is_catalog_mergePlugins find_mergePlugins_kept)
    from Cons.IH [OF this(1) new(1) this(2)] Some 1 show ?thesis
      by (simp add: Let_def)
  qed
qed

lemma mergePlugins_strict_dup:
  "is_catalog cats \<Longrightarrow> is_map ps \<Longrightarrow> k \<in> fst ` set ps \<Longrightarrow> find_plugin cats cid k \<noteq> None \<Longrightarrow>
   \<exists>k'. mergePlugins True cid ps cats = Inl (DuplicatePluginError cid k') \<and> k' \<le> k \<and>
     k' \<in> fst ` set ps \<and> find_plugin cats cid k' \<noteq> None"
proof (induction ps arbitrary: cats)
  case Nil
  then show ?case by simp
next
  case (Cons p ps)
  from Cons.prems(2) have ps: "is_map ps" "\<forall>r\<in>set ps. fst p < fst r"
    by (simp_all add: is_map_Cons)
  show ?case
  proof (cases "find_plugin cats cid (fst p) = None")
    case False
    moreover from Cons.prems(3) ps(2) have "fst p \<le> k"
      by auto
    ultimately show ?thesis
      by (auto simp: find_subscript Let_def)
  next
    case True
    let ?cats = "subscript_insert cid p cats"
    from True Cons.prems have k: "k \<in> fst ` set ps"
      by auto
    from Cons.prems have "is_catalog ?cats" "find_plugin ?cats cid k \<noteq> None"
      by (simp_all add: is_catalog_subscript_insert find_plugin_subscript_insert)
    from Cons.IH [OF this(1) ps(1) k this(2)]
    obtain k' where k': "mergePlugins True cid ps ?cats = Inl (DuplicatePluginError cid k')"
      "k' \<le> k" "k' \<in> fst ` set ps" "find_plugin ?cats cid k' \<noteq> None"
      by blast
    from k'(3) ps(2) have "k' \<noteq> fst p"
      by auto
    with k'(4) Cons.prems(1) have "find_plugin cats cid k' \<noteq> None"
      by (simp add: find_plugin_subscript_insert)
    with k' True show ?thesis
      by (auto simp: find_subscript Let_def)
  qed
qed

lemma mergePlugins_strict_Inl:
  "is_catalog cats \<Longrightarrow> is_map ps \<Longrightarrow> mergePlugins True cid ps cats = Inl e \<Longrightarrow>
   \<exists>k'. e = DuplicatePluginError cid k' \<and> k' \<in> fst ` set ps \<and> find_plugin cats cid k' \<noteq> None"
proof (induction ps arbitrary: cats)
  case Nil
  then show ?case by simp
next
  case (Cons p ps)
  from Cons.prems(2) have ps: "is_map ps" "\<forall>r\<in>set ps. fst p < fst r"
    by (simp_all add: is_map_Cons)
  show ?case
  proof (cases "find_plugin cats cid (fst p) = None")
    case False
    with Cons.prems(3) show ?thesis
      by (auto simp: find_subscript Let_def)
  next
    case True
    let ?cats = "subscript_insert cid p cats"
    from True Cons.prems(3) have 1: "mergePlugins True cid ps ?cats = Inl e"
      by (simp add: find_subscript Let_def)
    from Cons.prems(1) have "is_catalog ?cats"
      by (rule is_catalog_subscript_insert)
    from Cons.IH [OF this ps(1) 1]
    obtain k' where k': "e = DuplicatePluginError cid k'" "k' \<in> fst ` set ps"
      "find_plugin ?cats cid k' \<noteq> None"
      by blast
    from k'(2) ps(2) have "k' \<noteq> fst p"
      by auto
    with k'(3) Cons.prems(1) have "find_plugin cats cid k' \<noteq> None"
      by (simp add: find_plugin_subscript_insert)
    with k' show ?thesis
      by auto
  qed
qed


lemma mergeCategories_strict_dup:
  "is_catalog cats \<Longrightarrow> is_catalog new \<Longrightarrow> find_plugin new c k \<noteq> None \<Longrightarrow>
   find_plugin cats c k \<noteq> None \<Longrightarrow>
   \<exists>c' k'. mergeCategories True new cats = Inl (DuplicatePluginError c' k') \<and>
     (c' < c \<or> c' = c \<and> k' \<le> k) \<and>
     find_plugin new c' k' \<noteq> None \<and> find_plugin cats c' k' \<noteq> None"
proof (induction new arbitrary: cats)
  case Nil
  then show ?case by (simp add: find_plugin_Nil)
next
  case (Cons cp new)
  let ?cid = "fst cp" and ?ps = "snd cp"
  from Cons.prems(2) have new: "is_catalog new" "is_map ?ps" "\<forall>r\<in>set new. ?cid < fst r"
    by (simp_all add: is_catalog_Cons)
  from Cons.prems(1) have m: "is_map cats"
    by (simp add: is_catalog_def)
  have later: "find_plugin (cp # new) d j = find_plugin new d j" if "find_plugin new d j \<noteq> None" for d j
    using find_plugin_category [OF that] new(3) by (auto simp: find_plugin_Cons)
  show ?case
  proof (cases "c = ?cid")
    case True
    with Cons.prems have k: "k \<in> fst ` set ?ps" "find_plugin cats ?cid k \<noteq> None"
      using find_iff_key [of ?ps k] by (auto simp: find_plugin_Cons)
    from mergePlugins_strict_dup [OF Cons.prems(1) new(2) k]
    obtain k' where k': "mergePlugins True ?cid ?ps cats = Inl (DuplicatePluginError ?cid k')"
      "k' \<le> k" "k' \<in> fst ` set ?ps" "find_plugin cats ?cid k' \<noteq> None"
      by blast
    from k(2) obtain existing where "std_map_find cats ?cid = Some existing"
      using find_plugin_found by blast
    with k' True show ?thesis
      using find_iff_key [of ?ps k'] by (auto simp: Let_def find_plugin_Cons)
  next
    case False
    with Cons.prems(3) have in_new: "find_plugin new c k \<noteq> None"
      by (simp add: find_plugin_Cons)
    from find_plugin_category [OF this] new(3) have less: "?cid < c"
      by auto
    show ?thesis
    proof (cases "std_map_find cats ?cid")
      case None
      let ?cats = "std_map_assign ?cid ?ps cats"
      have same: "find_plugin ?cats d j = find_plugin cats d j" if "d \<noteq> ?cid" for d j
        using that m by (simp add: find_plugin_assign)
      from Cons.prems(1) new(2) have "is_catalog ?cats"
        by (rule is_catalog_assign)
      moreover from False Cons.prems(4) have "find_plugin ?cats c k \<noteq> None"
        by (simp add: same)
      ultimately obtain c' k' where
        r: "mergeCategories True new ?cats = Inl (DuplicatePluginError c' k')"
          "c' < c \<or> c' = c \<and> k' \<le> k"
          "find_plugin new c' k' \<noteq> None" "find_plugin ?cats c' k' \<noteq> None"
        using Cons.IH [OF _ new(1) in_new, of ?cats] by blast
      from find_plugin_category [OF r(3)] new(3) have "c' \<noteq> ?cid"
        by auto
      with r(4) have "find_plugin cats c' k' \<noteq> None"
        by (simp add: same)
      with r None show ?thesis
        by (auto simp: Let_def later)
    next
      case (Some existing)
      show ?thesis
      proof (cases "mergePlugins True ?cid ?ps cats")
        case (Inl e)
        from mergePlugins_strict_Inl [OF Cons.prems(1) new(2) Inl]
        obtain k' where "e = DuplicatePluginError ?cid k'" "k' \<in> fst ` set ?ps"
          "find_plugin cats ?cid k' \<noteq> None"
          by blast
        with Inl Some less show ?thesis
          using find_iff_key [of ?ps k'] by (auto simp: Let_def find_plugin_Cons)
      next
        case (Inr cats1)
        from Inr Cons.prems(1) have "is_catalog cats1"
          by (rule is_catalog_mergePlugins)
        moreover from Cons.prems(4) have "find_plugin cats1 c k \<noteq> None"
          using find_mergePlugins_kept [OF Inr Cons.prems(1)] by auto
        ultimately obtain c' k' where
          r: "mergeCategories True new cats1 = Inl (DuplicatePluginError c' k')"
            "c' < c \<or> c' = c \<and> k' \<le> k"
            "find_plugin new c' k' \<noteq> None" "find_plugin cats1 c' k' \<noteq> None"
          using Cons.IH [OF _ new(1) in_new, of cats1] by blast
        from find_plugin_category [OF r(3)] new(3) have "c' \<noteq> ?cid"
          by auto
        with r(4) have "find_plugin cats c' k' \<noteq> None"
          using find_mergePlugins_other [OF Inr Cons.prems(1)] by simp
        with r Some Inr show ?thesis
          by (auto simp: Let_def later)
      qed
    qed
  qed
qed

section \<open>A failed stream has nothing left\<close>






section \<open>Insertion in any order\<close>




section \<open>The written bytes are the wire format\<close>

lemma mod_div_nat: "0 < a \<Longrightarrow> (n::nat) mod (a * b) div a = n div a mod b"
  by (simp add: mod_mult2_eq)

lemma length_byte1: "(n::nat) mod 65536 div 256 = n div 256 mod 256"
  using mod_div_nat [of 256 n 256] by simp

lemma length_byte0: "(n::nat) mod 65536 mod 256 = n mod 256"
  by (rule mod_mod_cancel) simp

lemma count_byte3: "(n::nat) mod 4294967296 div 16777216 = n div 16777216 mod 256"
  using mod_div_nat [of 16777216 n 256] by simp

lemma count_byte2: "(n::nat) mod 4294967296 div 65536 mod 256 = n div 65536 mod 256"
proof -
  have "n mod 4294967296 div 65536 = n div 65536 mod 65536"
    using mod_div_nat [of 65536 n 65536] by simp
  moreover have "n div 65536 mod 65536 mod 256 = n div 65536 mod 256"
    by (rule mod_mod_cancel) simp
  ultimately show ?thesis by simp
qed

lemma count_byte1: "(n::nat) mod 4294967296 div 256 mod 256 = n div 256 mod 256"
proof -
  have "n mod 4294967296 div 256 = n div 256 mod 16777216"
    using mod_div_nat [of 256 n 16777216] by simp
  moreover have "n div 256 mod 16777216 mod 256 = n div 256 mod 256"
    by (rule mod_mod_cancel) simp
  ultimately show ?thesis by simp
qed

lemma count_byte0: "(n::nat) mod 4294967296 mod 256 = n mod 256"
  by (rule mod_mod_cancel) simp

lemma byte_of_drop_bit:
  "(ucast (drop_bit k (of_nat n :: 'a::len word)) :: byte) = of_nat (n div 2 ^ k mod 256)"
  if "k + 8 \<le> LENGTH('a)"
proof (rule bit_word_eqI)
  fix i assume "i < LENGTH(8)"
  then have i: "i < 8" by simp
  have "n div 2 ^ k mod 256 = take_bit 8 (drop_bit k n)"
    by (simp add: take_bit_eq_mod drop_bit_eq_div)
  with i that show "bit (ucast (drop_bit k (of_nat n :: 'a word)) :: byte) i \<longleftrightarrow>
      bit (of_nat (n div 2 ^ k mod 256) :: byte) i"
    by (simp add: bit_simps)
qed

lemma swapped32_bytes:
  "object_bytes (swapByteOrder (w :: 32 word)) =
     [ucast (drop_bit 24 w), ucast (drop_bit 16 w), ucast (drop_bit 8 w), ucast w]"
proof -
  have "(ucast (swapByteOrder w) :: byte) = ucast (drop_bit 24 w)"
    by (rule bit_word_eqI) (auto simp: bit_simps bit_swap32 add.commute)
  moreover have "(ucast (drop_bit 8 (swapByteOrder w)) :: byte) = ucast (drop_bit 16 w)"
    by (rule bit_word_eqI) (auto simp: bit_simps bit_swap32 add.commute)
  moreover have "(ucast (drop_bit 16 (swapByteOrder w)) :: byte) = ucast (drop_bit 8 w)"
    by (rule bit_word_eqI) (auto simp: bit_simps bit_swap32 add.commute)
  moreover have "(ucast (drop_bit 24 (swapByteOrder w)) :: byte) = ucast w"
    by (rule bit_word_eqI) (auto simp: bit_simps bit_swap32 add.commute)
  ultimately show ?thesis
    by (simp add: object_bytes32)
qed

lemma writeInt_wire: "writeInt buffer (of_nat n) = buffer @ wire_int n"
  using byte_of_drop_bit [where ?'a = 32, of 24 n] byte_of_drop_bit [where ?'a = 32, of 16 n]
    byte_of_drop_bit [where ?'a = 32, of 8 n] byte_of_drop_bit [where ?'a = 32, of 0 n]
  by (simp add: writeInt_def swapped32_bytes wire_int_def count_byte3 count_byte2 count_byte1 count_byte0)

lemma writeUTFString_wire: "writeUTFString buffer str = buffer @ wire_string str"
  using byte_of_drop_bit [where ?'a = 16, of 8 "length str"]
    byte_of_drop_bit [where ?'a = 16, of 0 "length str"]
  by (simp add: writeUTFString_def swapped16_bytes wire_string_def length_byte1 length_byte0)

lemma writeBoolean_wire: "writeBoolean buffer v = buffer @ wire_flag v"
  by (simp add: writeBoolean_def wire_flag_def)

lemma writePlugins_wire:
  "writePlugins buffer ps = buffer @ concat (map wire_entry (map snd ps))"
proof (induction ps arbitrary: buffer)
  case Nil
  then show ?case by simp
next
  case (Cons p ps)
  show ?case
    by (simp add: Cons.IH Let_def wire_entry_def writeUTFString_wire writeBoolean_wire)
qed

lemma writeCategories_wire:
  "writeCategories buffer categories = buffer @ concat (map wire_category (listing categories))"
proof (induction categories arbitrary: buffer)
  case Nil
  then show ?case by (simp add: listing_def)
next
  case (Cons cp categories)
  have "listing (cp # categories) = (fst cp, map snd (snd cp)) # listing categories"
    by (simp add: listing_def)
  then show ?case
    by (simp add: Cons.IH Let_def wire_category_def writePlugins_wire writeUTFString_wire
        writeInt_wire)
qed

lemma write_wire: "writeLog4j2PluginCacheFile categories = wire_layout (listing categories)"
  using writeInt_wire [of "[]" "length categories"]
  by (simp add: writeLog4j2PluginCacheFile_def wire_layout_def writeCategories_wire listing_def)


section \<open>The reads of a run, one after the other\<close>


























section \<open>Evaluation of the examples\<close>

lemmas write_defs =
  writeLog4j2PluginCacheFile_def writeInt_def writeUTFString_def writeBoolean_def
  object_bytes_def swapByteOrder_def

lemmas read_defs =
  loadLog4j2PluginCacheFile_def load_run_def readInt_def readUTFString_def readBool_def
  uninitialised_def stream_read_def object_value_def swapByteOrder_def subscript_insert_def
  std_map_subscript_def std_map_find_def

lemmas example_defs =
  core_catalog_def appender_def core_bytes_def other_catalog_def other_appender_def
  twice_listed_def alpha_def two_plugins_def empty_category_def zeroed_def ascii_def

lemmas check_defs =
  is_catalog_def is_map_def keyed_def category_ok_def fits_def plugin_fits_def populated_def

lemmas merge_defs =
  find_plugin_def std_map_find_def std_map_subscript_def subscript_insert_def Let_def

lemma loadEntries_numeral:
  "loadEntries (numeral n) cat categories buffer =
     loadEntries (Suc (pred_numeral n)) cat categories buffer"
  by (simp add: numeral_eq_Suc)

lemma core_catalog_checks:
  "is_catalog core_catalog \<and> keyed core_catalog \<and> category_ok core_catalog \<and>
   fits core_catalog \<and> populated core_catalog"
  by (simp add: example_defs check_defs)

lemma other_catalog_checks: "is_catalog other_catalog"
  by (simp add: example_defs check_defs)

lemma find_core: "find_plugin core_catalog (ascii ''Core'') (ascii ''Append'') = Some appender"
  by (simp add: example_defs merge_defs)

lemma find_other:
  "find_plugin other_catalog (ascii ''Core'') (ascii ''Append'') = Some other_appender"
  by (simp add: example_defs merge_defs)

lemma appenders_differ: "appender \<noteq> other_appender"
  by (simp add: example_defs)

lemma lenient_example: "mergeCategories False other_catalog core_catalog = Inr core_catalog"
  by (simp add: example_defs merge_defs)

lemma strict_example:
  "mergeCategories True other_catalog core_catalog =
     Inl (DuplicatePluginError (ascii ''Core'') (ascii ''Append''))"
  by (simp add: example_defs merge_defs)

lemma twice_listed_checks:
  "fits twice_listed \<and>
   occurrences twice_listed (ascii ''Core'') (ascii ''Append'') = [appender, other_appender]"
  by (simp add: example_defs check_defs occurrences_def)

lemma load_twice_listed:
  "loadLog4j2PluginCacheFile zeroed (writeLog4j2PluginCacheFile twice_listed) = core_catalog"
  by (simp add: example_defs write_defs read_defs upt_rec loadEntries_numeral)


lemma write_core: "writeLog4j2PluginCacheFile core_catalog = core_bytes 0x2F"
  by (simp add: core_catalog_def appender_def core_bytes_def write_defs ascii_def upt_rec)

lemma load_core: "loadLog4j2PluginCacheFile u (core_bytes 0x2F) = core_catalog"
  by (simp add: core_catalog_def appender_def core_bytes_def read_defs ascii_def upt_rec)

lemma load_other:
  "loadLog4j2PluginCacheFile u (writeLog4j2PluginCacheFile other_catalog) = other_catalog"
  by (simp add: example_defs write_defs read_defs upt_rec)

lemma first_example: "mergeCategories False core_catalog [] = Inr core_catalog"
  by (simp add: example_defs merge_defs)






section \<open>Claim C1: round trip\<close>

text \<open>
  Claim C1, as stated, covers a catalog with a category that holds no entry. The writer
  lists such a category with the count zero; the loader creates a category only when it
  inserts an entry, so the category is gone after decoding.
\<close>

theorem round_trip_loses_empty_category:
  "is_catalog empty_category \<and> keyed empty_category \<and> category_ok empty_category \<and>
   fits empty_category \<and>
   loadLog4j2PluginCacheFile zeroed (writeLog4j2PluginCacheFile empty_category) \<noteq> empty_category"
  by (simp add: example_defs check_defs write_defs read_defs upt_rec)

text \<open>
  Claim C1, amended: for every catalog in which each category's entries are keyed by
  their own key field, every entry's category field is the name of the category holding
  it, every string is at most 65535 bytes long, and moreover every category holds at
  least one entry and the number of categories and of entries of each category is below
  \<open>2 ^ 32\<close>, decoding the encoding yields the catalog itself, whatever the uninitialised
  locals of the loader hold.
\<close>

theorem round_trip:
  assumes "is_catalog c" and "keyed c" and "category_ok c" and "fits c"
    and "populated c"
  shows "loadLog4j2PluginCacheFile u (writeLog4j2PluginCacheFile c) = c"
proof -
  from assms have "rebuild c [] = [] @ c"
    by (intro rebuild_catalog) (simp_all add: is_catalog_def populated_def)
  with assms(4) show ?thesis
    by (simp add: load_layout)
qed

theorem round_trip_witness:
  "is_catalog core_catalog \<and> keyed core_catalog \<and> category_ok core_catalog \<and>
   fits core_catalog \<and> populated core_catalog \<and>
   loadLog4j2PluginCacheFile zeroed (writeLog4j2PluginCacheFile core_catalog) = core_catalog"
  using core_catalog_checks round_trip [of core_catalog zeroed] by blast

section \<open>Claim C2: lenient merge\<close>

text \<open>
  Claim C2, as stated, has the incoming entry replace the accumulator's one.
  \<^verbatim>\<open>std::map::insert\<close> leaves an existing element alone: merging the second
  catalog into the first leaves the first catalog's entry under \<open>Core\<close>, \<open>Append\<close>,
  and so does a run of the combiner over the two jars' buffers.
\<close>

theorem lenient_merge_not_last_wins:
  "is_catalog core_catalog \<and> is_catalog other_catalog \<and>
   find_plugin core_catalog (ascii ''Core'') (ascii ''Append'') = Some appender \<and>
   find_plugin other_catalog (ascii ''Core'') (ascii ''Append'') = Some other_appender \<and>
   appender \<noteq> other_appender \<and>
   mergeCategories False other_catalog core_catalog = Inr core_catalog \<and>
   MergeAll id (new_combiner False)
     [(zeroed, Z_NO_COMPRESSION, writeLog4j2PluginCacheFile core_catalog),
      (zeroed, Z_NO_COMPRESSION, writeLog4j2PluginCacheFile other_catalog)] =
     Inr \<lparr>categories' = core_catalog, no_duplicates' = False, inflater' = False\<rparr>"
  by (simp add: core_catalog_checks other_catalog_checks find_core find_other appenders_differ
      lenient_example Merge_def new_combiner_def Z_NO_COMPRESSION_def write_core load_core
      load_other first_example)

text \<open>
  Claim C2, amended: for every accumulator catalog and incoming catalog merged with
  strict=false, when a (category, key) pair exists in both, the merge succeeds and the
  accumulator's existing entry stays (first-processed-wins): the resulting catalog is a
  map of maps, so it holds a single entry under the pair, and that entry is the
  accumulator's. After merging two catalogs that both contain \<open>Core\<close>, \<open>Append\<close> the
  entry is the first (earlier-merged) catalog's.
\<close>

theorem lenient_merge_keeps_existing:
  assumes "is_catalog acc" and "is_catalog inc"
    and "find_plugin acc c k = Some e" and "find_plugin inc c k = Some e'"
  shows "\<exists>acc'. mergeCategories False inc acc = Inr acc' \<and> is_catalog acc' \<and>
     find_plugin acc' c k = Some e"
  using assms(1-3) by (rule mergeCategories_lenient_kept)

theorem lenient_merge_keeps_existing_witness:
  "is_catalog core_catalog \<and> is_catalog other_catalog \<and>
   find_plugin core_catalog (ascii ''Core'') (ascii ''Append'') = Some appender \<and>
   find_plugin other_catalog (ascii ''Core'') (ascii ''Append'') = Some other_appender \<and>
   (\<exists>acc'. mergeCategories False other_catalog core_catalog = Inr acc' \<and> is_catalog acc' \<and>
     find_plugin acc' (ascii ''Core'') (ascii ''Append'') = Some appender)"
  using core_catalog_checks other_catalog_checks find_core find_other
    lenient_merge_keeps_existing [of core_catalog other_catalog "ascii ''Core''" "ascii ''Append''"
      appender other_appender]
  by blast

section \<open>Claim C3: strict merge\<close>

text \<open>
  Claim C3, as stated, has the error identify any pair the two catalogs share. The merge
  ends at the first plugin it finds present already, in the iteration order of the
  incoming catalog: two catalogs that share \<open>Core\<close>, \<open>Alpha\<close> besides \<open>Core\<close>,
  \<open>Append\<close> fail identifying \<open>Alpha\<close>, not \<open>Append\<close>.
\<close>

theorem strict_merge_reports_first_duplicate:
  "is_catalog two_plugins \<and>
   find_plugin two_plugins (ascii ''Core'') (ascii ''Append'') = Some appender \<and>
   mergeCategories True two_plugins two_plugins =
     Inl (DuplicatePluginError (ascii ''Core'') (ascii ''Alpha'')) \<and>
   DuplicatePluginError (ascii ''Core'') (ascii ''Alpha'') \<noteq>
     DuplicatePluginError (ascii ''Core'') (ascii ''Append'')"
  by (simp add: example_defs check_defs merge_defs)

text \<open>
  Claim C3, amended: for every accumulator catalog and incoming catalog that both
  contain some (category, key) pair, merging with strict=true fails with
  DuplicatePluginError identifying a category and key that both contain, and no later
  in the order of iteration (ascending category name, then ascending key) than that
  pair; the failure carries no catalog, so no partial merge is retained. In particular,
  merging two catalogs whose first common pair is \<open>Core\<close>, \<open>Append\<close> fails identifying
  \<open>Core\<close>, \<open>Append\<close>.
\<close>

theorem strict_merge_rejects_duplicate:
  assumes "is_catalog acc" and "is_catalog inc"
    and "find_plugin acc c k \<noteq> None" and "find_plugin inc c k \<noteq> None"
  shows "\<exists>c' k'. mergeCategories True inc acc = Inl (DuplicatePluginError c' k') \<and>
     (c' < c \<or> c' = c \<and> k' \<le> k) \<and>
     find_plugin inc c' k' \<noteq> None \<and> find_plugin acc c' k' \<noteq> None"
  using assms(1,2,4,3) by (rule mergeCategories_strict_dup)

theorem strict_merge_rejects_duplicate_witness:
  "is_catalog core_catalog \<and> is_catalog other_catalog \<and>
   find_plugin core_catalog (ascii ''Core'') (ascii ''Append'') \<noteq> None \<and>
   find_plugin other_catalog (ascii ''Core'') (ascii ''Append'') \<noteq> None \<and>
   mergeCategories True other_catalog core_catalog =
     Inl (DuplicatePluginError (ascii ''Core'') (ascii ''Append''))"
proof -
  have h: "is_catalog core_catalog" "is_catalog other_catalog"
    "find_plugin core_catalog (ascii ''Core'') (ascii ''Append'') \<noteq> None"
    "find_plugin other_catalog (ascii ''Core'') (ascii ''Append'') \<noteq> None"
    by (simp_all add: core_catalog_checks other_catalog_checks find_core find_other)
  from strict_merge_rejects_duplicate [OF h]
  obtain c' k' where "mergeCategories True other_catalog core_catalog =
      Inl (DuplicatePluginError c' k')"
    by blast
  with h strict_example show ?thesis
    by simp
qed

section \<open>Claim C4: truncated input\<close>




section \<open>Claim C5: deterministic order\<close>




section \<open>Claim C6: the end-to-end example\<close>

text \<open>
  Claim C6, as stated, gives the length field of the class name as \<open>00 35\<close>. The class
  name has 47 bytes, and the code writes \<open>00 2F\<close>: the encoding of the example catalog
  is not the byte sequence of the claim.
\<close>

theorem example_bytes_not_as_claimed:
  "writeLog4j2PluginCacheFile core_catalog \<noteq> core_bytes 0x35"
  by (simp add: core_catalog_def appender_def core_bytes_def write_defs ascii_def upt_rec)

text \<open>
  Claim C6, amended: encoding the catalog with the one category \<open>Core\<close> and the one
  entry of the example produces the bytes of the claim with the class name's length
  field \<open>00 2F\<close>, and decoding those bytes yields exactly that catalog.
\<close>

theorem example_encode_decode:
  "writeLog4j2PluginCacheFile core_catalog = core_bytes 0x2F \<and>
   loadLog4j2PluginCacheFile u (core_bytes 0x2F) = core_catalog"
  by (simp add: write_core load_core)

section \<open>Claim C7: a key listed twice in one buffer\<close>

text \<open>
  Claim C7, as stated, has the later of two occurrences win. The loader stores with
  \<^verbatim>\<open>insert\<close>, which leaves the element of the first occurrence in place: of the
  buffer that lists \<open>Append\<close> twice under \<open>Core\<close> the decoded catalog holds the first
  entry, not the second.
\<close>

theorem decode_does_not_keep_later:
  "occurrences twice_listed (ascii ''Core'') (ascii ''Append'') = [appender, other_appender] \<and>
   find_plugin (loadLog4j2PluginCacheFile zeroed (writeLog4j2PluginCacheFile twice_listed))
     (ascii ''Core'') (ascii ''Append'') = Some appender \<and>
   appender \<noteq> other_appender"
  by (simp add: twice_listed_checks load_twice_listed find_core appenders_differ)

text \<open>
  Claim C7, amended: for every input buffer that lists categories and entries within
  the limits of the format and in which the same (category, key) pair appears twice (or
  more often), Decode returns a catalog in which that key maps to the earliest
  occurrence in the buffer: within a single decode call the earlier occurrence stays
  and the later ones are dropped.
\<close>

theorem first_occurrence_kept:
  assumes "fits raw" and "occurrences raw c k = e1 # e2 # es"
  shows "find_plugin (loadLog4j2PluginCacheFile u (writeLog4j2PluginCacheFile raw)) c k
     = Some (e1\<lparr>category := c\<rparr>)"
  using assms by (simp add: load_layout find_rebuild [OF is_catalog_Nil] find_plugin_Nil)

theorem first_occurrence_kept_witness:
  "fits twice_listed \<and>
   occurrences twice_listed (ascii ''Core'') (ascii ''Append'') = appender # other_appender # [] \<and>
   find_plugin (loadLog4j2PluginCacheFile zeroed (writeLog4j2PluginCacheFile twice_listed))
     (ascii ''Core'') (ascii ''Append'') = Some (appender\<lparr>category := ascii ''Core''\<rparr>)"
  using twice_listed_checks
    first_occurrence_kept [of twice_listed "ascii ''Core''" "ascii ''Append''" appender
      other_appender "[]" zeroed]
  by simp

section \<open>Claim C8: strings too long for the length field\<close>

text \<open>
  Claim C8, as stated, has the encoding of a string of more than 65535 bytes fail. The
  writer has no failing path: a category name of 65536 bytes is written in full behind
  the length field \<open>00 00\<close>.
\<close>

theorem long_string_is_encoded:
  "is_catalog [(long_name, [])] \<and> length long_name = 65536 \<and>
   Encode [(long_name, [])] = Inr ([0, 0, 0, 1] @ [0, 0] @ long_name @ [0, 0, 0, 0])"
  by (simp add: Encode_def long_name_def write_defs upt_rec is_catalog_def is_map_def)

text \<open>
  Claim C8, amended: Encode never fails, neither for a catalog in which every string
  fits the 16-bit length field nor for one with a longer string: for every catalog it
  returns the wire format of what the catalog lists, in which every string (category
  name, key, class name, name) is written in full behind the two bytes, high byte first,
  of its length modulo 65536.
\<close>

theorem encode_never_fails: "Encode c = Inr (wire_layout (listing c))"
  by (simp add: Encode_def write_wire)

section \<open>Claim C9: the category field\<close>

text \<open>
  Claim C9: after any sequence of merges that starts from the combiner as constructed,
  whatever the entries' bytes and compression methods, every entry of the accumulated
  catalog names the category that holds it.
\<close>

theorem accumulator_category_ok:
  assumes "MergeAll inflate (new_combiner no_duplicates) entries = Inr this"
  shows "category_ok (categories' this)"
proof -
  have "MergeAll inflate this0 entries = Inr this \<Longrightarrow> category_ok (categories' this0) \<Longrightarrow>
      category_ok (categories' this)" for this0
  proof (induction entries arbitrary: this0)
    case Nil
    then show ?case by simp
  next
    case (Cons entry entries)
    then show ?case
      by (auto split: sum.splits dest: category_ok_Merge)
  qed
  moreover have "category_ok (categories' (new_combiner no_duplicates))"
    by (simp add: new_combiner_def category_ok_def)
  ultimately show ?thesis
    using assms by blast
qed

theorem accumulator_category_ok_witness:
  "MergeAll id (new_combiner False)
     [(zeroed, Z_NO_COMPRESSION, core_bytes 0x2F),
      (zeroed, Z_DEFLATED, writeLog4j2PluginCacheFile other_catalog)] =
     Inr \<lparr>categories' = core_catalog, no_duplicates' = False, inflater' = True\<rparr> \<and>
   category_ok (categories' \<lparr>categories' = core_catalog, no_duplicates' = False, inflater' = True\<rparr>)"
proof -
  have h: "MergeAll id (new_combiner False)
     [(zeroed, Z_NO_COMPRESSION, core_bytes 0x2F),
      (zeroed, Z_DEFLATED, writeLog4j2PluginCacheFile other_catalog)] =
     Inr \<lparr>categories' = core_catalog, no_duplicates' = False, inflater' = True\<rparr>"
    by (simp add: Merge_def new_combiner_def Z_NO_COMPRESSION_def Z_DEFLATED_def load_core
        load_other first_example lenient_example)
  from accumulator_category_ok [OF h] h show ?thesis
    by simp
qed

section \<open>Claim C10: the earliest entry stays\<close>

text \<open>
  Claim C10: at both insertion sites the entry seen first stays. Within one decoding,
  the catalog holds under a category and key the first entry the buffer lists for them
  (none if it lists none), and an entry the catalog holds is still there after any
  number of further rounds of the loader, whatever the stream holds; and a merge with
  \<open>no_duplicates\<close> off succeeds and leaves every entry of the accumulator in place,
  whatever the incoming catalog holds under that category and key.
\<close>

theorem earliest_entry_kept:
  assumes "fits raw" and "is_catalog acc" and "is_catalog inc"
    and "find_plugin acc c k = Some e"
  shows "find_plugin (loadLog4j2PluginCacheFile u (writeLog4j2PluginCacheFile raw)) d j =
       (case occurrences raw d j of [] \<Rightarrow> None | x # later \<Rightarrow> Some (x\<lparr>category := d\<rparr>)) \<and>
     find_plugin (fst (loadCategories n acc s)) c k = Some e \<and>
     (\<exists>acc'. mergeCategories False inc acc = Inr acc' \<and> find_plugin acc' c k = Some e)"
proof -
  from assms(1) have "find_plugin (loadLog4j2PluginCacheFile u (writeLog4j2PluginCacheFile raw)) d j =
       (case occurrences raw d j of [] \<Rightarrow> None | x # later \<Rightarrow> Some (x\<lparr>category := d\<rparr>))"
    by (simp add: load_layout find_rebuild [OF is_catalog_Nil] find_plugin_Nil)
  moreover from find_loadCategories_kept [OF assms(2,4)]
  have "find_plugin (fst (loadCategories n acc s)) c k = Some e"
    by blast
  moreover from mergeCategories_lenient_kept [OF assms(2-4)]
  have "\<exists>acc'. mergeCategories False inc acc = Inr acc' \<and> find_plugin acc' c k = Some e"
    by blast
  ultimately show ?thesis
    by blast
qed

theorem earliest_entry_kept_witness:
  "fits twice_listed \<and> is_catalog core_catalog \<and> is_catalog other_catalog \<and>
   find_plugin core_catalog (ascii ''Core'') (ascii ''Append'') = Some appender \<and>
   find_plugin (loadLog4j2PluginCacheFile zeroed (writeLog4j2PluginCacheFile twice_listed))
       (ascii ''Core'') (ascii ''Append'') = Some (appender\<lparr>category := ascii ''Core''\<rparr>) \<and>
   find_plugin
       (fst (loadCategories 1 core_catalog
          \<lparr>content = writeCategories [] other_catalog, failed = False, indeterminate = zeroed\<rparr>))
       (ascii ''Core'') (ascii ''Append'') = Some appender \<and>
   (\<exists>acc'. mergeCategories False other_catalog core_catalog = Inr acc' \<and>
      find_plugin acc' (ascii ''Core'') (ascii ''Append'') = Some appender)"
proof -
  have h: "fits twice_listed" "is_catalog core_catalog" "is_catalog other_catalog"
    "find_plugin core_catalog (ascii ''Core'') (ascii ''Append'') = Some appender"
    by (simp_all add: twice_listed_checks core_catalog_checks other_catalog_checks find_core)
  from earliest_entry_kept [OF h, of zeroed "ascii ''Core''" "ascii ''Append''" 1
      "\<lparr>content = writeCategories [] other_catalog, failed = False, indeterminate = zeroed\<rparr>"] h
    twice_listed_checks
  show ?thesis
    by simp
qed

end
